theory Spec2Isabelle
  imports Complex_Main "HOL-Library.Monad_Syntax" "HOL-Library.Multiset" "HOL-Library.Signed_Division"
begin

section \<open>UHJ encoder (utils/uhjencoder.cpp)\<close>

text \<open>
  The encoder computes in the 32-bit \<^verbatim>\<open>float\<close>. Its model leaves the sample type open: a
  type \<open>'a\<close> with a zero, \<open>+\<close>, \<open>-\<close> and \<open>*\<close>, of which no law is assumed, and a reading
  \<open>lit\<close> of the decimal literals of the source (\<open>lit 0.5\<close> is \<^verbatim>\<open>0.5f\<close>). What is proved of
  \<open>encode\<close> for every such type holds for the floating-point arithmetic of the source and for
  the real numbers (\<open>lit\<close> the identity) alike.

  Arrays are lists. The source indexes them unchecked; in the model every read and every write
  is checked against the length of the list, and an access out of bounds makes the result
  \<open>None\<close>.
\<close>

definition BufferLineSize :: nat where
  "BufferLineSize = 1024"

definition sFilterDelay :: nat where
  "sFilterDelay = 1024"

record 'a UhjEncoder =
  mS :: "'a list"
  mD :: "'a list"
  mWXHistory :: "'a list"
  mTemp :: "'a list"

definition UhjEncoder_init :: "('a::zero) UhjEncoder" where
  "UhjEncoder_init =
     \<lparr>mS = replicate (BufferLineSize + sFilterDelay) 0,
      mD = replicate (BufferLineSize + sFilterDelay) 0,
      mWXHistory = replicate (sFilterDelay * 2 - 1) 0,
      mTemp = replicate (BufferLineSize + sFilterDelay * 2) 0\<rparr>"

definition rd :: "'a list \<Rightarrow> nat \<Rightarrow> 'a option" where
  "rd xs i = (if i < length xs then Some (xs ! i) else None)"

definition wr :: "'a list \<Rightarrow> nat \<Rightarrow> 'a \<Rightarrow> 'a list option" where
  "wr xs i v = (if i < length xs then Some (xs[i := v]) else None)"

text \<open>\<^verbatim>\<open>for(size_t i{0};i < n;i++) step\<close>: the iterations run in ascending order.\<close>

primrec for_loop :: "nat \<Rightarrow> (nat \<Rightarrow> 's \<Rightarrow> 's option) \<Rightarrow> 's \<Rightarrow> 's option" where
  "for_loop 0 step s = Some s"
| "for_loop (Suc n) step s = for_loop n step s \<bind> step n"

text \<open>
  \<^verbatim>\<open>std::transform\<close> with one and with two input ranges, \<^verbatim>\<open>std::copy\<close> / \<^verbatim>\<open>std::copy_n\<close>
  between two arrays, and \<^verbatim>\<open>std::copy\<close> within one array (the source range starts at
  \<open>first\<close>, the destination at \<open>d_first\<close>; every element is read when its turn comes).
\<close>

definition transform1 ::
  "'a list \<Rightarrow> nat \<Rightarrow> 'a list \<Rightarrow> nat \<Rightarrow> ('a \<Rightarrow> 'a) \<Rightarrow> 'a list option" where
  "transform1 in1 cnt dst d_first f =
     for_loop cnt (\<lambda>i dst. do { a \<leftarrow> rd in1 i; wr dst (d_first + i) (f a) }) dst"

definition transform2 ::
  "'a list \<Rightarrow> 'a list \<Rightarrow> nat \<Rightarrow> 'a list \<Rightarrow> nat \<Rightarrow> ('a \<Rightarrow> 'a \<Rightarrow> 'a) \<Rightarrow> 'a list option" where
  "transform2 in1 in2 cnt dst d_first f =
     for_loop cnt
       (\<lambda>i dst. do { a \<leftarrow> rd in1 i; b \<leftarrow> rd in2 i; wr dst (d_first + i) (f a b) }) dst"

definition copy_n :: "'a list \<Rightarrow> nat \<Rightarrow> nat \<Rightarrow> 'a list \<Rightarrow> nat \<Rightarrow> 'a list option" where
  "copy_n src first cnt dst d_first =
     for_loop cnt (\<lambda>i dst. do { v \<leftarrow> rd src (first + i); wr dst (d_first + i) v }) dst"

definition copy_within :: "'a list \<Rightarrow> nat \<Rightarrow> nat \<Rightarrow> nat \<Rightarrow> 'a list option" where
  "copy_within buf first cnt d_first =
     for_loop cnt (\<lambda>i buf. do { v \<leftarrow> rd buf (first + i); wr buf (d_first + i) v }) buf"

text \<open>
  Modelled from the spec: \<^verbatim>\<open>PhaseShifterT::processAccum\<close> is declared in phase_shifter.h,
  which is not among the sources. The spec describes a fixed-length all-pass FIR filter that,
  given the history followed by the new input, adds its output to an existing buffer, as a
  pure function of history and input. So the output for position \<open>i\<close> is the sum of the
  samples \<open>src[i + k]\<close> weighted by the coefficients, added to \<open>dst[i]\<close>. The coefficient
  table \<open>coeffs\<close> of the filter object \<^verbatim>\<open>PShift\<close> is a parameter.
\<close>

definition fir :: "('a::{zero,plus,times}) list \<Rightarrow> 'a list \<Rightarrow> nat \<Rightarrow> 'a option" where
  "fir coeffs src i =
     for_loop (length coeffs) (\<lambda>k ret. do { x \<leftarrow> rd src (i + k); Some (ret + x * coeffs ! k) }) 0"

definition processAccum ::
  "('a::{zero,plus,times}) list \<Rightarrow> 'a list \<Rightarrow> nat \<Rightarrow> 'a list \<Rightarrow> 'a list option" where
  "processAccum coeffs dst cnt src =
     for_loop cnt
       (\<lambda>i dst. do { ret \<leftarrow> fir coeffs src i; out \<leftarrow> rd dst i; wr dst i (out + ret) }) dst"

text \<open>
  \<^verbatim>\<open>UhjEncoder::encode\<close>, in two parts: \<open>encode_mix\<close> is the body up to the two output loops,
  \<open>encode_keep\<close> is the final copy of the future samples to the front. \<open>InSamples\<close> is the
  array of input lines that the pointer refers to.
\<close>

definition encode_mix ::
  "(real \<Rightarrow> 'a) \<Rightarrow> 'a list \<Rightarrow> ('a::{zero,plus,minus,uminus,times}) UhjEncoder \<Rightarrow> 'a list \<Rightarrow> 'a list
     \<Rightarrow> 'a list list \<Rightarrow> nat \<Rightarrow> ('a UhjEncoder \<times> 'a list \<times> 'a list) option" where
  "encode_mix lit PShift enc LeftOut RightOut InSamples SamplesToDo =
     do {
       winput \<leftarrow> rd InSamples 0;
       xinput \<leftarrow> rd InSamples 1;
       yinput \<leftarrow> rd InSamples 2;
       mS1 \<leftarrow> transform2 winput xinput SamplesToDo (mS enc) sFilterDelay
               (\<lambda>w x. lit 0.9396926 * w + lit 0.1855740 * x);
       mD1 \<leftarrow> transform1 yinput SamplesToDo (mD enc) sFilterDelay
               (\<lambda>y. lit 0.6554516 * y);
       mTemp1 \<leftarrow> copy_n (mWXHistory enc) 0 (length (mWXHistory enc)) (mTemp enc) 0;
       mTemp2 \<leftarrow> transform2 winput xinput SamplesToDo mTemp1 (length (mWXHistory enc))
               (\<lambda>w x. - lit 0.3420201 * w + lit 0.5098604 * x);
       mWXHistory1 \<leftarrow> copy_n mTemp2 SamplesToDo (length (mWXHistory enc)) (mWXHistory enc) 0;
       mD2 \<leftarrow> processAccum PShift mD1 SamplesToDo mTemp2;
       left \<leftarrow> for_loop SamplesToDo
                 (\<lambda>i left. do { s \<leftarrow> rd mS1 i; d \<leftarrow> rd mD2 i; wr left i ((s + d) * lit 0.5) })
                 LeftOut;
       right \<leftarrow> for_loop SamplesToDo
                 (\<lambda>i right. do { s \<leftarrow> rd mS1 i; d \<leftarrow> rd mD2 i; wr right i ((s - d) * lit 0.5) })
                 RightOut;
       Some (enc\<lparr>mS := mS1, mD := mD2, mWXHistory := mWXHistory1, mTemp := mTemp2\<rparr>, left, right)
     }"

definition encode_keep :: "'a UhjEncoder \<Rightarrow> nat \<Rightarrow> 'a UhjEncoder option" where
  "encode_keep enc SamplesToDo =
     do {
       mS2 \<leftarrow> copy_within (mS enc) SamplesToDo sFilterDelay 0;
       mD2 \<leftarrow> copy_within (mD enc) SamplesToDo sFilterDelay 0;
       Some (enc\<lparr>mS := mS2, mD := mD2\<rparr>)
     }"

definition encode ::
  "(real \<Rightarrow> 'a) \<Rightarrow> 'a list \<Rightarrow> ('a::{zero,plus,minus,uminus,times}) UhjEncoder \<Rightarrow> 'a list \<Rightarrow> 'a list
     \<Rightarrow> 'a list list \<Rightarrow> nat \<Rightarrow> ('a UhjEncoder \<times> 'a list \<times> 'a list) option" where
  "encode lit PShift enc LeftOut RightOut InSamples SamplesToDo =
     do {
       (enc1, left, right) \<leftarrow> encode_mix lit PShift enc LeftOut RightOut InSamples SamplesToDo;
       enc2 \<leftarrow> encode_keep enc1 SamplesToDo;
       Some (enc2, left, right)
     }"

text \<open>A sequence of calls on one encoder; the outputs are dropped, the state is passed on.\<close>

primrec encode_calls ::
  "(real \<Rightarrow> 'a) \<Rightarrow> 'a list \<Rightarrow> ('a::{zero,plus,minus,uminus,times}) UhjEncoder
     \<Rightarrow> ('a list \<times> 'a list \<times> 'a list list \<times> nat) list \<Rightarrow> 'a UhjEncoder option" where
  "encode_calls lit PShift enc [] = Some enc"
| "encode_calls lit PShift enc (c # cs) =
     (case c of (LeftOut, RightOut, InSamples, SamplesToDo) \<Rightarrow>
        do {
          (enc', left, right) \<leftarrow> encode lit PShift enc LeftOut RightOut InSamples SamplesToDo;
          encode_calls lit PShift enc' cs
        })"

text \<open>
  The loop of \<^verbatim>\<open>main\<close> that feeds a file to one encoder: each block is a set of input lines
  and a number of frames, the two output lines are reused from call to call, and the first
  \<open>SamplesToDo\<close> samples of each line are what a call has produced. The outputs of the calls
  are collected in order.
\<close>

primrec encode_stream ::
  "(real \<Rightarrow> 'a) \<Rightarrow> 'a list \<Rightarrow> ('a::{zero,plus,minus,uminus,times}) UhjEncoder \<Rightarrow> 'a list \<Rightarrow> 'a list
     \<Rightarrow> ('a list list \<times> nat) list \<Rightarrow> ('a UhjEncoder \<times> 'a list \<times> 'a list) option" where
  "encode_stream lit PShift enc LeftOut RightOut [] = Some (enc, [], [])"
| "encode_stream lit PShift enc LeftOut RightOut (b # bs) =
     do {
       (enc1, left, right) \<leftarrow> encode lit PShift enc LeftOut RightOut (fst b) (snd b);
       (enc2, lefts, rights) \<leftarrow> encode_stream lit PShift enc1 left right bs;
       Some (enc2, take (snd b) left @ lefts, take (snd b) right @ rights)
     }"

text \<open>
  The sizes that the types of the source fix: the four arrays of the encoder, the output
  spans, and the input lines (\<^verbatim>\<open>FloatBufferLine\<close>), of which \<open>encode\<close> reads three.
\<close>

definition array_sizes :: "'a UhjEncoder \<Rightarrow> bool" where
  "array_sizes enc \<longleftrightarrow>
     length (mS enc) = BufferLineSize + sFilterDelay
     \<and> length (mD enc) = BufferLineSize + sFilterDelay
     \<and> length (mWXHistory enc) = sFilterDelay * 2 - 1
     \<and> length (mTemp enc) = BufferLineSize + sFilterDelay * 2"

definition buffer_lines :: "'a list list \<Rightarrow> bool" where
  "buffer_lines InSamples \<longleftrightarrow>
     3 \<le> length InSamples \<and> (\<forall>line \<in> set InSamples. length line = BufferLineSize)"

definition valid_call :: "'a list \<times> 'a list \<times> 'a list list \<times> nat \<Rightarrow> bool" where
  "valid_call c =
     (case c of (LeftOut, RightOut, InSamples, SamplesToDo) \<Rightarrow>
        length LeftOut = BufferLineSize \<and> length RightOut = BufferLineSize
        \<and> buffer_lines InSamples \<and> SamplesToDo \<le> BufferLineSize)"

definition valid_block :: "'a list list \<times> nat \<Rightarrow> bool" where
  "valid_block b \<longleftrightarrow> buffer_lines (fst b) \<and> snd b \<le> BufferLineSize"

text \<open>
  Closed forms for the proofs: a list with one range replaced, the sum of the filter, the
  arrays after \<open>encode_mix\<close>, and the state after \<open>encode_keep\<close>.
\<close>

definition put :: "'a list \<Rightarrow> nat \<Rightarrow> nat \<Rightarrow> (nat \<Rightarrow> 'a) \<Rightarrow> 'a list" where
  "put dst d n g = map (\<lambda>j. if d \<le> j \<and> j < d + n then g (j - d) else dst ! j) [0..<length dst]"

definition fir_sum :: "('a::{zero,plus,times}) list \<Rightarrow> 'a list \<Rightarrow> nat \<Rightarrow> 'a" where
  "fir_sum coeffs src i = fold (\<lambda>k ret. ret + src ! (i + k) * coeffs ! k) [0..<length coeffs] 0"

definition mid_S :: 
  "(real \<Rightarrow> 'a) \<Rightarrow> ('a::{zero,plus,minus,uminus,times}) UhjEncoder \<Rightarrow> 'a list list \<Rightarrow> nat
     \<Rightarrow> 'a list" where
  "mid_S lit enc InSamples n =
     put (mS enc) sFilterDelay n
       (\<lambda>i. lit 0.9396926 * InSamples ! 0 ! i + lit 0.1855740 * InSamples ! 1 ! i)"

definition mid_Temp :: 
  "(real \<Rightarrow> 'a) \<Rightarrow> ('a::{zero,plus,minus,uminus,times}) UhjEncoder \<Rightarrow> 'a list list \<Rightarrow> nat
     \<Rightarrow> 'a list" where
  "mid_Temp lit enc InSamples n =
     put (put (mTemp enc) 0 (length (mWXHistory enc)) (\<lambda>i. mWXHistory enc ! i))
       (length (mWXHistory enc)) n
       (\<lambda>i. - lit 0.3420201 * InSamples ! 0 ! i + lit 0.5098604 * InSamples ! 1 ! i)"

definition mid_D :: 
  "(real \<Rightarrow> 'a) \<Rightarrow> 'a list \<Rightarrow> ('a::{zero,plus,minus,uminus,times}) UhjEncoder \<Rightarrow> 'a list list
     \<Rightarrow> nat \<Rightarrow> 'a list" where
  "mid_D lit PShift enc InSamples n =
     put (put (mD enc) sFilterDelay n (\<lambda>i. lit 0.6554516 * InSamples ! 2 ! i)) 0 n
       (\<lambda>i. put (mD enc) sFilterDelay n (\<lambda>i. lit 0.6554516 * InSamples ! 2 ! i) ! i
            + fir_sum PShift (mid_Temp lit enc InSamples n) i)"

definition mid_state :: 
  "(real \<Rightarrow> 'a) \<Rightarrow> 'a list \<Rightarrow> ('a::{zero,plus,minus,uminus,times}) UhjEncoder \<Rightarrow> 'a list list
     \<Rightarrow> nat \<Rightarrow> 'a UhjEncoder" where
  "mid_state lit PShift enc InSamples n =
     enc\<lparr>mS := mid_S lit enc InSamples n,
         mD := mid_D lit PShift enc InSamples n,
         mWXHistory := put (mWXHistory enc) 0 (length (mWXHistory enc))
                         (\<lambda>i. mid_Temp lit enc InSamples n ! (n + i)),
         mTemp := mid_Temp lit enc InSamples n\<rparr>"

definition kept_state :: "'a UhjEncoder \<Rightarrow> nat \<Rightarrow> 'a UhjEncoder" where
  "kept_state enc n =
     enc\<lparr>mS := put (mS enc) 0 sFilterDelay (\<lambda>i. mS enc ! (n + i)),
         mD := put (mD enc) 0 sFilterDelay (\<lambda>i. mD enc ! (n + i))\<rparr>"

text \<open>
  The signals of a sequence of blocks, as one list each: the samples of input channel \<open>c\<close>,
  the mid signal \<open>S\<close>, the side signal \<open>D\<close> before the filter, the signal \<open>T\<close> that the filter
  is applied to, and the pair of output samples at position \<open>g\<close> of the whole sequence, from an
  encoder whose histories are those of \<open>enc\<close>.
\<close>

definition stream_in :: "nat \<Rightarrow> ('a list list \<times> nat) list \<Rightarrow> 'a list" where
  "stream_in c bs = concat (map (\<lambda>b. take (snd b) (fst b ! c)) bs)"

definition S_stream :: "(real \<Rightarrow> 'a) \<Rightarrow> (('a::{plus,times}) list list \<times> nat) list \<Rightarrow> 'a list" where
  "S_stream lit bs =
     concat (map (\<lambda>b. map (\<lambda>i. lit 0.9396926 * fst b ! 0 ! i + lit 0.1855740 * fst b ! 1 ! i)
                         [0..<snd b]) bs)"

definition D_stream :: "(real \<Rightarrow> 'a) \<Rightarrow> (('a::{plus,times}) list list \<times> nat) list \<Rightarrow> 'a list" where
  "D_stream lit bs = concat (map (\<lambda>b. map (\<lambda>i. lit 0.6554516 * fst b ! 2 ! i) [0..<snd b]) bs)"

definition T_stream ::
  "(real \<Rightarrow> 'a) \<Rightarrow> (('a::{plus,uminus,times}) list list \<times> nat) list \<Rightarrow> 'a list" where
  "T_stream lit bs =
     concat (map (\<lambda>b. map (\<lambda>i. - lit 0.3420201 * fst b ! 0 ! i + lit 0.5098604 * fst b ! 1 ! i)
                         [0..<snd b]) bs)"

definition stream_out ::
  "(real \<Rightarrow> 'a) \<Rightarrow> 'a list \<Rightarrow> ('a::{zero,plus,minus,uminus,times}) UhjEncoder
     \<Rightarrow> ('a list list \<times> nat) list \<Rightarrow> nat \<Rightarrow> 'a \<times> 'a" where
  "stream_out lit PShift enc bs g =
     (let s = (take sFilterDelay (mS enc) @ S_stream lit bs) ! g;
          d = (take sFilterDelay (mD enc) @ D_stream lit bs) ! g
              + fir_sum PShift (mWXHistory enc @ T_stream lit bs) g
      in ((s + d) * lit 0.5, (s - d) * lit 0.5))"

text \<open>The pair of output samples \<open>i\<close> of one call.\<close>

definition encode_sample ::
  "(real \<Rightarrow> 'a) \<Rightarrow> 'a list \<Rightarrow> ('a::{zero,plus,minus,uminus,times}) UhjEncoder \<Rightarrow> 'a list \<Rightarrow> 'a list
     \<Rightarrow> 'a list list \<Rightarrow> nat \<Rightarrow> nat \<Rightarrow> ('a \<times> 'a) option" where
  "encode_sample lit PShift enc LeftOut RightOut InSamples SamplesToDo i =
     map_option (\<lambda>(enc', left, right). (left ! i, right ! i))
       (encode lit PShift enc LeftOut RightOut InSamples SamplesToDo)"

text \<open>
  The output samples as the specification has them for one call, over the real numbers:
  \<open>S[i] = 0.9396926 * W[i] + 0.1855740 * X[i]\<close>, \<open>D[i] = 0.6554516 * Y[i]\<close> plus the filter's
  output for sample \<open>i\<close> of the call, \<open>Left[i] = (S[i] + D[i]) / 2\<close> and
  \<open>Right[i] = (S[i] - D[i]) / 2\<close>.
\<close>

definition claimed_S :: "real list list \<Rightarrow> nat \<Rightarrow> real" where
  "claimed_S InSamples i = 0.9396926 * InSamples ! 0 ! i + 0.1855740 * InSamples ! 1 ! i"

definition claimed_D :: "real list \<Rightarrow> real UhjEncoder \<Rightarrow> real list list \<Rightarrow> nat \<Rightarrow> nat \<Rightarrow> real" where
  "claimed_D PShift enc InSamples n i =
     0.6554516 * InSamples ! 2 ! i + fir_sum PShift (mid_Temp (\<lambda>x. x) enc InSamples n) i"

definition claimed_sample ::
  "real list \<Rightarrow> real UhjEncoder \<Rightarrow> real list list \<Rightarrow> nat \<Rightarrow> nat \<Rightarrow> real \<times> real" where
  "claimed_sample PShift enc InSamples n i =
     ((claimed_S InSamples i + claimed_D PShift enc InSamples n i) / 2,
      (claimed_S InSamples i - claimed_D PShift enc InSamples n i) / 2)"

text \<open>
  The same signals with the delay of the encoder, at position \<open>g\<close> of a sequence of blocks: the
  mid signal and the direct side term are those of the input \<open>sFilterDelay\<close> samples earlier,
  or the retained samples of \<open>mS\<close> and \<open>mD\<close> for the first \<open>sFilterDelay\<close> positions; the filter
  reads the retained history \<open>mWXHistory\<close> followed by
  \<open>-0.3420201 * W + 0.5098604 * X\<close> of the input, from position \<open>g\<close> on.
\<close>

definition delayed_S ::
  "(real \<Rightarrow> 'a) \<Rightarrow> ('a::{zero,plus,minus,uminus,times}) UhjEncoder \<Rightarrow> ('a list list \<times> nat) list
     \<Rightarrow> nat \<Rightarrow> 'a" where
  "delayed_S lit enc bs g =
     (if g < sFilterDelay then mS enc ! g
      else lit 0.9396926 * stream_in 0 bs ! (g - sFilterDelay)
           + lit 0.1855740 * stream_in 1 bs ! (g - sFilterDelay))"

definition filter_input ::
  "(real \<Rightarrow> 'a) \<Rightarrow> ('a::{zero,plus,minus,uminus,times}) UhjEncoder \<Rightarrow> ('a list list \<times> nat) list
     \<Rightarrow> nat \<Rightarrow> 'a" where
  "filter_input lit enc bs j =
     (if j < sFilterDelay * 2 - 1 then mWXHistory enc ! j
      else - lit 0.3420201 * stream_in 0 bs ! (j - (sFilterDelay * 2 - 1))
           + lit 0.5098604 * stream_in 1 bs ! (j - (sFilterDelay * 2 - 1)))"

definition delayed_D ::
  "(real \<Rightarrow> 'a) \<Rightarrow> 'a list \<Rightarrow> ('a::{zero,plus,minus,uminus,times}) UhjEncoder
     \<Rightarrow> ('a list list \<times> nat) list \<Rightarrow> nat \<Rightarrow> 'a" where
  "delayed_D lit PShift enc bs g =
     (if g < sFilterDelay then mD enc ! g else lit 0.6554516 * stream_in 2 bs ! (g - sFilterDelay))
     + fold (\<lambda>k ret. ret + filter_input lit enc bs (g + k) * PShift ! k) [0..<length PShift] 0"

text \<open>
  Inputs over the real numbers: three lines of silence, a unit impulse on W only, the three
  blocks that feed \<open>sFilterDelay\<close> frames of silence, the impulse and \<open>sFilterDelay\<close> more frames
  of silence, and a coefficient table with taps on the even offsets.
\<close>

definition silence :: "real list list" where
  "silence = [replicate BufferLineSize 0, replicate BufferLineSize 0, replicate BufferLineSize 0]"

definition impulse :: "real list list" where
  "impulse = [1 # replicate (BufferLineSize - 1) 0, replicate BufferLineSize 0,
              replicate BufferLineSize 0]"

definition impulse_blocks :: "(real list list \<times> nat) list" where
  "impulse_blocks = [(silence, sFilterDelay), (impulse, 1), (silence, sFilterDelay)]"

definition example_taps :: "real list" where
  "example_taps = map (\<lambda>k. if even k then 1 else 0) [0..<sFilterDelay * 2]"

section \<open>Channel map resolver (utils/uhjencoder.cpp)\<close>

text \<open>
  The sample type of the source is the 32-bit \<^verbatim>\<open>float\<close>. Speaker angles and ambisonic gains
  are modelled over the real numbers: the literals are the decimal literals of the source, and
  \<^verbatim>\<open>std::cos\<close>, \<^verbatim>\<open>std::sin\<close> are the real functions. Rounding is not modelled.
\<close>

datatype sf_channel = SF_CHANNEL_MAP_LEFT | SF_CHANNEL_MAP_RIGHT | SF_CHANNEL_MAP_LFE

record SpeakerPos =
  mChannelID :: sf_channel
  mAzimuth :: real
  mElevation :: real

text \<open>
  Modelled from the spec: \<^verbatim>\<open>Deg2Rad\<close> is declared in math_defs.h, which is not among the
  sources; the spec gives speaker positions in "radians, azimuth counter-clockwise from
  front", so the helper converts degrees into radians.
\<close>

definition Deg2Rad :: "real \<Rightarrow> real" where
  "Deg2Rad x = pi / 180 * x"

definition StereoMap :: "SpeakerPos list" where
  "StereoMap =
    [\<lparr>mChannelID = SF_CHANNEL_MAP_LEFT, mAzimuth = Deg2Rad 30, mElevation = Deg2Rad 0\<rparr>,
     \<lparr>mChannelID = SF_CHANNEL_MAP_RIGHT, mAzimuth = Deg2Rad (- 30), mElevation = Deg2Rad 0\<rparr>]"

text \<open>\<^verbatim>\<open>GenCoeffs(x /*+front*/, y /*+left*/, z /*+up*/)\<close>: coefficients are +3dB of FuMa.\<close>

definition GenCoeffs :: "real \<Rightarrow> real \<Rightarrow> real \<Rightarrow> real list" where
  "GenCoeffs x y z = [1, 1.41421356237 * x, 1.41421356237 * y, 1.41421356237 * z]"

text \<open>The call of \<^verbatim>\<open>GenCoeffs\<close> in the conversion loop of \<^verbatim>\<open>main\<close>, for one speaker.\<close>

definition speaker_coeffs :: "SpeakerPos \<Rightarrow> real list" where
  "speaker_coeffs spkr =
     GenCoeffs (cos (mAzimuth spkr) * cos (mElevation spkr))
               (sin (mAzimuth spkr) * cos (mElevation spkr))
               (sin (mElevation spkr))"

section \<open>PipeWire backend (alc/backends/pipewire.cpp)\<close>

text \<open>
  Unsigned 32-bit quantities (\<^verbatim>\<open>uint\<close>, \<^verbatim>\<open>uint32_t\<close>) are natural numbers and the
  \<^verbatim>\<open>int32_t\<close> values of a format description are integers; where the source narrows or
  wraps, the reduction modulo \<open>2 ^ 32\<close> is written out. Pointers are addresses (natural
  numbers), a null pointer that the code tests is an \<open>option\<close>. The event loop's lock and the
  wait for the initial enumeration (\<^verbatim>\<open>waitForInit\<close>) are not modelled: every operation runs
  on the registry as it is while the lock is held.
\<close>

subsection \<open>Device registry\<close>

datatype DevFmtChannels = DevFmtMono | DevFmtStereo | DevFmtQuad | DevFmtX51 | DevFmtX61 | DevFmtX71
  | InvalidChannelConfig

record DeviceNode =
  mName :: string
  mDevName :: string
  mId :: nat
  mCapture :: bool
  mIsHeadphones :: bool
  mSampleRate :: nat
  mChannels :: DevFmtChannels

text \<open>
  The shared state: \<^verbatim>\<open>DeviceList\<close>, \<^verbatim>\<open>DefaultSinkDev\<close>, \<^verbatim>\<open>DefaultSourceDev\<close>, and the two
  function-local static counters \<^verbatim>\<open>OpenCount\<close> of the \<^verbatim>\<open>open\<close> methods.
\<close>

record globals =
  DeviceList :: "DeviceNode list"
  DefaultSinkDev :: string
  DefaultSourceDev :: string
  PlaybackOpenCount :: nat
  CaptureOpenCount :: nat

text \<open>
  \<^verbatim>\<open>std::find_if\<close> over a list; iterators are positions, and \<^verbatim>\<open>end()\<close> is the length.
\<close>

primrec find_if :: "('a \<Rightarrow> bool) \<Rightarrow> 'a list \<Rightarrow> nat" where
  "find_if P [] = 0"
| "find_if P (x # xs) = (if P x then 0 else Suc (find_if P xs))"

subsection \<open>Sample rate of a format event\<close>

text \<open>
  What \<^verbatim>\<open>spa_pod_get_values\<close> and \<^verbatim>\<open>get_pod_type\<close> report of the rate property: the type of
  the values, the choice type, and the values themselves (\<^verbatim>\<open>nvals\<close> is their number).
\<close>

datatype spa_choice_type = SPA_CHOICE_None | SPA_CHOICE_Range | SPA_CHOICE_Step | SPA_CHOICE_Enum
  | SPA_CHOICE_Flags

datatype spa_type = SPA_TYPE_Int | SPA_TYPE_Id | SPA_TYPE_Long | SPA_TYPE_Float | SPA_TYPE_Double

record spa_pod_values =
  podType :: spa_type
  choiceType :: spa_choice_type
  body :: "int list"

text \<open>
  Modelled from the spec: \<^verbatim>\<open>clampi\<close> is declared in alnumeric.h, which is not among the
  sources; the spec has the rate "clamped to a supported rate interval". The bounds
  \<^verbatim>\<open>MIN_OUTPUT_RATE\<close> and \<^verbatim>\<open>MAX_OUTPUT_RATE\<close> are constants of a header that is not among
  the sources either: they are parameters of \<open>parse_srate\<close>.
\<close>

definition clampi :: "int \<Rightarrow> int \<Rightarrow> int \<Rightarrow> int" where
  "clampi val mn mx = min mx (max mn val)"

text \<open>\<^verbatim>\<open>static_cast<uint>\<close> of an \<^verbatim>\<open>int32_t\<close>.\<close>

definition to_uint :: "int \<Rightarrow> nat" where
  "to_uint v = nat (v mod 2 ^ 32)"

text \<open>The loop over an enumerated list: the first rate within the allowed range is stored.\<close>

primrec pick_rate :: "int \<Rightarrow> int \<Rightarrow> int list \<Rightarrow> DeviceNode \<Rightarrow> DeviceNode" where
  "pick_rate MIN_OUTPUT_RATE MAX_OUTPUT_RATE [] node = node"
| "pick_rate MIN_OUTPUT_RATE MAX_OUTPUT_RATE (r # srates) node =
     (if r \<ge> MIN_OUTPUT_RATE \<and> r \<le> MAX_OUTPUT_RATE then node\<lparr>mSampleRate := to_uint r\<rparr>
      else pick_rate MIN_OUTPUT_RATE MAX_OUTPUT_RATE srates node)"

definition parse_srate :: "int \<Rightarrow> int \<Rightarrow> DeviceNode \<Rightarrow> spa_pod_values \<Rightarrow> DeviceNode" where
  "parse_srate MIN_OUTPUT_RATE MAX_OUTPUT_RATE node val =
     (if podType val \<noteq> SPA_TYPE_Int then node
      else if choiceType val = SPA_CHOICE_Range then
        (if length (body val) \<noteq> 3 then node
         else node\<lparr>mSampleRate := to_uint (clampi (body val ! 0) MIN_OUTPUT_RATE MAX_OUTPUT_RATE)\<rparr>)
      else if choiceType val = SPA_CHOICE_Enum then
        (if length (body val) = 0 then node
         else pick_rate MIN_OUTPUT_RATE MAX_OUTPUT_RATE (body val) node)
      else if choiceType val = SPA_CHOICE_None then
        (if length (body val) \<noteq> 1 then node
         else node\<lparr>mSampleRate := to_uint (clampi (body val ! 0) MIN_OUTPUT_RATE MAX_OUTPUT_RATE)\<rparr>)
      else node)"

subsection \<open>Backends\<close>

datatype backend_error = NoDevice | DeviceError

datatype BackendType = Playback | Capture

record DeviceBase =
  DeviceName :: string
  Frequency :: nat
  UpdateSize :: nat
  BufferSize :: nat

text \<open>
  \<open>mLoop\<close> and \<open>mStream\<close> say whether the handle is non-null. The capture backend is declared
  first, so that the plain field names are those of the playback backend.
\<close>

record PipeWireCapture =
  mDevice :: DeviceBase
  mTargetId :: nat
  mLoop :: bool
  mStream :: bool

record spa_io_rate_match =
  rate_match_size :: nat

record PipeWirePlayback =
  mDevice :: DeviceBase
  mTargetId :: nat
  mTimeBase :: int
  mLoop :: bool
  mRateMatch :: "spa_io_rate_match option"
  mChannelPtrs :: "nat list"
  mNumChannels :: nat

text \<open>The results of \<^verbatim>\<open>pw_thread_loop_new\<close> and \<^verbatim>\<open>pw_thread_loop_start\<close>.\<close>

record loop_env =
  loop_new_ok :: bool
  loop_start_res :: int

definition PwIdAny :: nat where
  "PwIdAny = 4294967295"

definition pwireDevice :: string where
  "pwireDevice = ''PipeWire Output''"

definition pwireInput :: string where
  "pwireInput = ''PipeWire Input''"

definition MonitorPrefix :: string where
  "MonitorPrefix = ''Monitor of ''"

definition MonitorPrefixLen :: nat where
  "MonitorPrefixLen = length MonitorPrefix"

subsection \<open>Playback data callback\<close>

record spa_chunk =
  offset :: nat
  chunk_size :: nat
  stride :: nat

record spa_data =
  data :: nat
  maxsize :: nat
  chunk :: spa_chunk

text \<open>\<^verbatim>\<open>pw_buffer\<close> with its \<^verbatim>\<open>spa_buffer\<close>: \<^verbatim>\<open>n_datas\<close> is the length of \<open>datas\<close>.\<close>

record pw_buffer =
  datas :: "spa_data list"
  buffer_size :: nat

definition minu :: "nat \<Rightarrow> nat \<Rightarrow> nat" where
  "minu a b = min a b"

definition sizeof_float :: nat where
  "sizeof_float = 4"

text \<open>The first loop of the callback: clamp the length and store the channel pointers.\<close>

definition channel_step :: "spa_data list \<Rightarrow> nat \<Rightarrow> nat \<times> nat list \<Rightarrow> nat \<times> nat list" where
  "channel_step ds i = (\<lambda>(len, ptrs).
     (minu len (maxsize (ds ! i) div sizeof_float), ptrs[i := data (ds ! i)]))"

text \<open>The second loop: mark the used region of every channel.\<close>

definition chunk_step :: "nat \<Rightarrow> nat \<Rightarrow> spa_data list \<Rightarrow> spa_data list" where
  "chunk_step len i ds =
     ds[i := (ds ! i)\<lparr>chunk := \<lparr>offset = 0, chunk_size = (len * sizeof_float) mod 2 ^ 32,
                                 stride = sizeof_float\<rparr>\<rparr>]"

text \<open>
  \<^verbatim>\<open>PipeWirePlayback::outputCallback\<close>. The argument is what \<^verbatim>\<open>pw_stream_dequeue_buffer\<close>
  returned (\<open>None\<close> for a null pointer). The result is the backend, and, when a buffer was
  dequeued, the buffer as it is queued again with the frame count passed to
  \<^verbatim>\<open>renderSamples\<close>.
\<close>

definition outputCallback ::
  "PipeWirePlayback \<Rightarrow> pw_buffer option \<Rightarrow> PipeWirePlayback \<times> (pw_buffer \<times> nat) option" where
  "outputCallback pb dequeued =
     (case dequeued of
        None \<Rightarrow> (pb, None)
      | Some pw_buf \<Rightarrow>
          let chancount = minu (mNumChannels pb) (length (datas pw_buf));
              length0 = (case mRateMatch pb of Some rm \<Rightarrow> rate_match_size rm
                         | None \<Rightarrow> UpdateSize (mDevice pb));
              (len, ptrs) = fold (channel_step (datas pw_buf)) [0..<chancount]
                              (length0, mChannelPtrs pb);
              ds = fold (chunk_step len) [0..<chancount] (datas pw_buf)
          in (pb\<lparr>mChannelPtrs := ptrs\<rparr>, Some (pw_buf\<lparr>datas := ds, buffer_size := len\<rparr>, len)))"

text \<open>The frame count of one invocation: what \<^verbatim>\<open>renderSamples\<close> is asked for, if anything.\<close>

definition frames_rendered :: "PipeWirePlayback \<Rightarrow> pw_buffer option \<Rightarrow> nat option" where
  "frames_rendered pb dequeued = map_option snd (snd (outputCallback pb dequeued))"

subsection \<open>Opening a device\<close>

text \<open>
  \<^verbatim>\<open>PipeWirePlayback::open\<close>. The result is the exception thrown, if any, with the backend and
  the shared state as the call leaves them. The messages of the exceptions are left out.
\<close>

definition PipeWirePlayback_open ::
  "loop_env \<Rightarrow> globals \<Rightarrow> PipeWirePlayback \<Rightarrow> string option
     \<Rightarrow> backend_error option \<times> PipeWirePlayback \<times> globals" where
  "PipeWirePlayback_open env g pb name =
     (let dl = DeviceList g;
          match = (case name of
              None \<Rightarrow>
                let match0 = (if DefaultSinkDev g \<noteq> []
                              then find_if (\<lambda>n. mDevName n = DefaultSinkDev g) dl
                              else length dl)
                in if match0 = length dl then find_if (\<lambda>n. \<not> mCapture n) dl else match0
            | Some nm \<Rightarrow> find_if (\<lambda>n. \<not> mCapture n \<and> mName n = nm) dl)
      in if match = length dl then (Some NoDevice, pb, g)
         else
           let targetid = mId (dl ! match);
               devname = mName (dl ! match);
               g1 = (if mLoop pb then g
                     else g\<lparr>PlaybackOpenCount := (PlaybackOpenCount g + 1) mod 2 ^ 32\<rparr>)
           in if \<not> mLoop pb \<and> \<not> loop_new_ok env then (Some DeviceError, pb, g1)
              else if \<not> mLoop pb \<and> loop_start_res env \<noteq> 0
                then (Some DeviceError, pb\<lparr>mLoop := True\<rparr>, g1)
              else (None,
                    pb\<lparr>mLoop := True, mTargetId := targetid,
                       mDevice := (mDevice pb)
                         \<lparr>DeviceName := (if devname \<noteq> [] then devname else pwireDevice)\<rparr>\<rparr>,
                    g1))"

text \<open>
  \<^verbatim>\<open>PipeWireCapture::open\<close>. After the device name is stored, the method negotiates the format,
  creates and connects the stream and allocates the ring buffer, all through the PipeWire
  client library: that part is the parameter \<open>connect_stream\<close>.
\<close>

definition PipeWireCapture_open ::
  "loop_env \<Rightarrow> (PipeWireCapture \<Rightarrow> backend_error option \<times> PipeWireCapture) \<Rightarrow> globals
     \<Rightarrow> PipeWireCapture \<Rightarrow> string option
     \<Rightarrow> backend_error option \<times> PipeWireCapture \<times> globals" where
  "PipeWireCapture_open env connect_stream g cap name =
     (let dl = DeviceList g;
          match = (case name of
              None \<Rightarrow>
                let match0 = (if DefaultSourceDev g \<noteq> []
                              then find_if (\<lambda>n. mDevName n = DefaultSourceDev g) dl
                              else length dl);
                    match1 = (if match0 = length dl then find_if (\<lambda>n. mCapture n) dl else match0)
                in if match1 = length dl then find_if (\<lambda>n. \<not> mCapture n) dl else match1
            | Some nm \<Rightarrow>
                let match0 = find_if (\<lambda>n. mCapture n \<and> mName n = nm) dl
                in if match0 = length dl \<and> take MonitorPrefixLen nm = MonitorPrefix
                   then find_if (\<lambda>n. \<not> mCapture n \<and> mName n = drop MonitorPrefixLen nm) dl
                   else match0)
      in if match = length dl then (Some NoDevice, cap, g)
         else
           let targetid = mId (dl ! match);
               devname = (case name of
                   None \<Rightarrow> if mCapture (dl ! match) then mName (dl ! match)
                           else MonitorPrefix @ mName (dl ! match)
                 | Some nm \<Rightarrow> nm);
               g1 = (if PipeWireCapture.mLoop cap then g
                     else g\<lparr>CaptureOpenCount := (CaptureOpenCount g + 1) mod 2 ^ 32\<rparr>)
           in if \<not> PipeWireCapture.mLoop cap \<and> \<not> loop_new_ok env then (Some DeviceError, cap, g1)
              else if \<not> PipeWireCapture.mLoop cap \<and> loop_start_res env \<noteq> 0
                then (Some DeviceError, cap\<lparr>PipeWireCapture.mLoop := True\<rparr>, g1)
              else
                let (err, cap') = connect_stream
                      (cap\<lparr>PipeWireCapture.mLoop := True, PipeWireCapture.mTargetId := targetid,
                          PipeWireCapture.mDevice := (PipeWireCapture.mDevice cap)
                            \<lparr>DeviceName := (if devname \<noteq> [] then devname else pwireInput)\<rparr>\<rparr>)
                in (err, cap', g1))"

subsection \<open>Clock and latency\<close>

text \<open>
  Durations are integers of nanoseconds. The source computes them in 64-bit signed integers,
  where overflow is undefined; the model is exact, so it describes the runs that do not
  overflow. The signed division of C++ truncates (\<open>sdiv\<close>). \<open>stream_time\<close> is what
  \<^verbatim>\<open>pw_stream_get_time\<close> stored (\<open>None\<close> when there is no stream, which leaves the
  zero-initialised \<^verbatim>\<open>ptime\<close>); \<open>mixtime\<close> and \<open>monoclock\<close> are the mixer clock and the
  monotonic clock as the retry loop sampled them. The result is \<open>None\<close> where the source
  divides by a zero \<^verbatim>\<open>Frequency\<close>.
\<close>

record spa_fraction =
  num :: nat
  denom :: nat

record pw_time =
  now :: int
  rate :: spa_fraction
  ticks :: nat
  delay :: int

record ClockLatency =
  ClockTime :: int
  Latency :: int

definition pw_time_zero :: pw_time where
  "pw_time_zero = \<lparr>now = 0, rate = \<lparr>num = 0, denom = 0\<rparr>, ticks = 0, delay = 0\<rparr>"

definition stream_ptime :: "pw_time option \<Rightarrow> pw_time" where
  "stream_ptime stream_time = (case stream_time of None \<Rightarrow> pw_time_zero | Some t \<Rightarrow> t)"

definition stream_ticks_ns :: "pw_time \<Rightarrow> int" where
  "stream_ticks_ns ptime =
     int (ticks ptime div denom (rate ptime)) * 1000000000 * int (num (rate ptime))
     + (int (ticks ptime mod denom (rate ptime)) * int (num (rate ptime)) * 1000000000)
         sdiv int (denom (rate ptime))"

definition stream_delay_ns :: "pw_time \<Rightarrow> int" where
  "stream_delay_ns ptime =
     (delay ptime * int (num (rate ptime)) * 1000000000) sdiv int (denom (rate ptime))"

definition getClockLatency ::
  "PipeWirePlayback \<Rightarrow> pw_time option \<Rightarrow> int \<Rightarrow> int \<Rightarrow> ClockLatency option" where
  "getClockLatency pb stream_time mixtime monoclock =
     (let ptime0 = stream_ptime stream_time;
          no_rate = (denom (rate ptime0) < 1)
      in if no_rate \<and> Frequency (mDevice pb) = 0 then None
         else
           let ptime = (if no_rate then ptime0\<lparr>now := monoclock\<rparr> else ptime0);
               curtic = (if no_rate then mixtime
                         else mTimeBase pb + stream_ticks_ns ptime);
               delay0 = (if no_rate
                         then (int (BufferSize (mDevice pb)) * 1000000000)
                                sdiv int (Frequency (mDevice pb))
                         else stream_delay_ns ptime);
               delay1 = (if mixtime > curtic then delay0 + (mixtime - curtic) else delay0);
               delay2 = delay1 - (monoclock - now ptime)
           in Some \<lparr>ClockTime = mixtime, Latency = max delay2 0\<rparr>)"

subsection \<open>Probing\<close>

definition NUL :: char where
  "NUL = CHR 0x00"

text \<open>\<^verbatim>\<open>outnames.append(n.mName.c_str(), n.mName.length()+1)\<close>: the name with its null char.\<close>

definition name_entry :: "DeviceNode \<Rightarrow> string" where
  "name_entry n = mName n @ [NUL]"

text \<open>The \<^verbatim>\<open>switch\<close> of \<^verbatim>\<open>probe\<close>, on the shared state after the sort.\<close>

definition probe_names :: "BackendType \<Rightarrow> globals \<Rightarrow> string" where
  "probe_names type g =
     (let dl = DeviceList g
      in case type of
           Playback \<Rightarrow>
             let defmatch = find_if (\<lambda>n. mDevName n = DefaultSinkDev g) dl;
                 out0 = (if defmatch \<noteq> length dl then name_entry (dl ! defmatch) else [])
             in fold (\<lambda>iter out. if iter \<noteq> defmatch \<and> \<not> mCapture (dl ! iter)
                                  then out @ name_entry (dl ! iter) else out)
                  [0..<length dl] out0
         | Capture \<Rightarrow>
             let defmatch = find_if (\<lambda>n. mDevName n = DefaultSourceDev g) dl;
                 out0 = (if defmatch \<noteq> length dl
                         then (if \<not> mCapture (dl ! defmatch) then MonitorPrefix else [])
                              @ name_entry (dl ! defmatch)
                         else []);
                 out1 = fold (\<lambda>iter out. if iter \<noteq> defmatch \<and> mCapture (dl ! iter)
                                  then out @ name_entry (dl ! iter) else out)
                          [0..<length dl] out0
             in fold (\<lambda>iter out. if iter \<noteq> defmatch \<and> \<not> mCapture (dl ! iter)
                                  then out @ MonitorPrefix @ name_entry (dl ! iter) else out)
                  [0..<length dl] out1)"

text \<open>
  \<^verbatim>\<open>PipeWireBackendFactory::probe\<close>. \<^verbatim>\<open>std::sort\<close> leaves the order of nodes with equal ids
  open; the model sorts by insertion (\<open>sort_key\<close>). \<^verbatim>\<open>AddDeviceNode\<close> never adds an id twice,
  and for distinct ids the sorted list is the same with every sorting algorithm.
\<close>

definition probe :: "BackendType \<Rightarrow> globals \<Rightarrow> string \<times> globals" where
  "probe type g =
     (let g' = g\<lparr>DeviceList := sort_key mId (DeviceList g)\<rparr>
      in (probe_names type g', g'))"

subsection \<open>The quantities the specification names\<close>

text \<open>The frame count of the callback as the specification has it: a minimum of three.\<close>

definition min_of_three :: "nat \<Rightarrow> PipeWirePlayback \<Rightarrow> pw_buffer \<Rightarrow> nat" where
  "min_of_three rate_match_hint pb pw_buf =
     Min ({rate_match_hint, UpdateSize (mDevice pb)}
          \<union> set (map (\<lambda>d. maxsize d div sizeof_float)
                  (take (minu (mNumChannels pb) (length (datas pw_buf))) (datas pw_buf))))"

text \<open>The per-channel capacity in frames of the channels the callback uses.\<close>

definition used_capacities :: "PipeWirePlayback \<Rightarrow> pw_buffer \<Rightarrow> nat list" where
  "used_capacities pb pw_buf =
     map (\<lambda>d. maxsize d div sizeof_float)
       (take (minu (mNumChannels pb) (length (datas pw_buf))) (datas pw_buf))"

text \<open>The length the callback starts from: the rate-match size if there is one.\<close>

definition base_length :: "PipeWirePlayback \<Rightarrow> nat" where
  "base_length pb = (case mRateMatch pb of Some rm \<Rightarrow> rate_match_size rm | None \<Rightarrow> UpdateSize (mDevice pb))"

text \<open>
  The latency as the specification writes it, the stream time with its accumulated base,
  and the rate interval.
\<close>

definition latency_formula :: "int \<Rightarrow> int \<Rightarrow> int \<Rightarrow> int \<Rightarrow> int \<Rightarrow> int" where
  "latency_formula serverDelay mixTime streamTickTime nowTime lastReportedTickWallClock =
     max 0 (serverDelay + max 0 (mixTime - streamTickTime) - (nowTime - lastReportedTickWallClock))"

definition stream_tick_time :: "PipeWirePlayback \<Rightarrow> pw_time \<Rightarrow> int" where
  "stream_tick_time pb ptime =
     mTimeBase pb + (int (ticks ptime) * int (num (rate ptime)) * 1000000000) div int (denom (rate ptime))"

definition in_rate_interval :: "int \<Rightarrow> int \<Rightarrow> int \<Rightarrow> bool" where
  "in_rate_interval mn mx r = (mn \<le> r \<and> r \<le> mx)"

definition clamp_to_interval :: "int \<Rightarrow> int \<Rightarrow> int \<Rightarrow> int" where
  "clamp_to_interval mn mx r = (if r < mn then mn else if mx < r then mx else r)"

text \<open>A name that \<^verbatim>\<open>open\<close> can resolve, for each direction.\<close>

definition playback_name_known :: "globals \<Rightarrow> string \<Rightarrow> bool" where
  "playback_name_known g nm = (\<exists>n \<in> set (DeviceList g). \<not> mCapture n \<and> mName n = nm)"

definition capture_name_known :: "globals \<Rightarrow> string \<Rightarrow> bool" where
  "capture_name_known g nm =
     ((\<exists>n \<in> set (DeviceList g). mCapture n \<and> mName n = nm)
      \<or> (\<exists>n \<in> set (DeviceList g). \<not> mCapture n \<and> nm = MonitorPrefix @ mName n))"

text \<open>
  The name string of \<^verbatim>\<open>probe\<close>: the default device, then the other devices of the direction
  and, for capture, a monitor for each other playback device.
\<close>

definition others :: "nat \<Rightarrow> 'a list \<Rightarrow> 'a list" where
  "others d xs = take d xs @ drop (Suc d) xs"

definition playback_names :: "string \<Rightarrow> DeviceNode list \<Rightarrow> string" where
  "playback_names def dl =
     (let d = find_if (\<lambda>n. mDevName n = def) dl
      in (if d < length dl then name_entry (dl ! d) else [])
         @ concat (map name_entry (filter (\<lambda>n. \<not> mCapture n) (others d dl))))"

definition capture_names :: "string \<Rightarrow> DeviceNode list \<Rightarrow> string" where
  "capture_names def dl =
     (let d = find_if (\<lambda>n. mDevName n = def) dl
      in (if d < length dl
          then (if mCapture (dl ! d) then [] else MonitorPrefix) @ name_entry (dl ! d) else [])
         @ concat (map name_entry (filter (\<lambda>n. mCapture n) (others d dl)))
         @ concat (map (\<lambda>n. MonitorPrefix @ name_entry n) (filter (\<lambda>n. \<not> mCapture n) (others d dl))))"

subsection \<open>Example states\<close>

definition cb_playback :: PipeWirePlayback where
  "cb_playback = \<lparr>mDevice = \<lparr>DeviceName = ''PipeWire Output'', Frequency = 48000, UpdateSize = 1024, BufferSize = 2048\<rparr>,
     mTargetId = 42, mTimeBase = 0, mLoop = True, mRateMatch = Some \<lparr>rate_match_size = 2048\<rparr>,
     mChannelPtrs = [0, 0], mNumChannels = 2\<rparr>"

definition cb_buffer :: pw_buffer where
  "cb_buffer = \<lparr>datas = [\<lparr>data = 4096, maxsize = 65536, chunk = \<lparr>offset = 0, chunk_size = 0, stride = 0\<rparr>\<rparr>,
                          \<lparr>data = 69632, maxsize = 65536, chunk = \<lparr>offset = 0, chunk_size = 0, stride = 0\<rparr>\<rparr>],
                 buffer_size = 0\<rparr>"

definition example_capture :: PipeWireCapture where
  "example_capture =
     \<lparr>PipeWireCapture.mDevice =
        \<lparr>DeviceName = [], Frequency = 48000, UpdateSize = 1024, BufferSize = 2048\<rparr>,
      PipeWireCapture.mTargetId = PwIdAny, PipeWireCapture.mLoop = False, mStream = False\<rparr>"

definition example_node :: DeviceNode where
  "example_node = \<lparr>mName = ''Spk'', mDevName = ''out.spk'', mId = 57, mCapture = False,
     mIsHeadphones = False, mSampleRate = 0, mChannels = InvalidChannelConfig\<rparr>"

definition example_registry :: globals where
  "example_registry =
     \<lparr>DeviceList =
        [example_node,
         \<lparr>mName = ''Mic'', mDevName = ''in.mic'', mId = 34, mCapture = True,
          mIsHeadphones = False, mSampleRate = 48000, mChannels = DevFmtMono\<rparr>,
         \<lparr>mName = ''Ear'', mDevName = ''out.ear'', mId = 41, mCapture = False,
          mIsHeadphones = True, mSampleRate = 44100, mChannels = DevFmtStereo\<rparr>],
      DefaultSinkDev = ''out.spk'', DefaultSourceDev = ''in.mic'',
      PlaybackOpenCount = 0, CaptureOpenCount = 0\<rparr>"

section \<open>Verification\<close>

subsection \<open>Channel map resolver\<close>

lemma cos_Deg2Rad_30: "cos (Deg2Rad 30) = sqrt 3 / 2"
proof -
  have e: "Deg2Rad 30 = pi / 6" by (simp add: Deg2Rad_def)
  show ?thesis unfolding e by (rule cos_30)
qed

lemma sin_Deg2Rad_30: "sin (Deg2Rad 30) = 1 / 2"
proof -
  have e: "Deg2Rad 30 = pi / 6" by (simp add: Deg2Rad_def)
  show ?thesis unfolding e by (rule sin_30)
qed

lemma Deg2Rad_minus: "Deg2Rad (- x) = - Deg2Rad x"
  by (simp add: Deg2Rad_def)

lemma Deg2Rad_0: "Deg2Rad 0 = 0"
  by (simp add: Deg2Rad_def)

lemma stereo_left_coeffs:
  "speaker_coeffs (StereoMap ! 0) = [1, 1.41421356237 * (sqrt 3 / 2), 1.41421356237 * (1 / 2), 0]"
  by (simp add: speaker_coeffs_def StereoMap_def GenCoeffs_def cos_Deg2Rad_30 sin_Deg2Rad_30
      Deg2Rad_0)

lemma stereo_right_coeffs:
  "speaker_coeffs (StereoMap ! 1) = [1, 1.41421356237 * (sqrt 3 / 2), - (1.41421356237 * (1 / 2)), 0]"
  by (simp add: speaker_coeffs_def StereoMap_def GenCoeffs_def cos_Deg2Rad_30 sin_Deg2Rad_30
      Deg2Rad_0 Deg2Rad_minus)

text \<open>
  C8, as stated: for the stereo layout the X gain \<open>coeffs[1]\<close> would be positive for the left
  speaker and negative for the right one, with equal magnitude. It fails: the X gain is the
  cosine of the azimuth, which is the same positive number for +30 and -30 degrees.
\<close>

theorem stereo_x_gain_counterexample:
  "\<not> (speaker_coeffs (StereoMap ! 0) ! 1 > 0 \<and> speaker_coeffs (StereoMap ! 1) ! 1 < 0
      \<and> \<bar>speaker_coeffs (StereoMap ! 0) ! 1\<bar> = \<bar>speaker_coeffs (StereoMap ! 1) ! 1\<bar>)"
proof -
  have "(0::real) < 1.41421356237 * (sqrt 3 / 2)" by simp
  then have "\<not> speaker_coeffs (StereoMap ! 1) ! 1 < 0"
    unfolding stereo_right_coeffs by simp
  then show ?thesis by blast
qed

text \<open>
  C8, amended: for the stereo layout (speakers at +30 and -30 degrees azimuth, elevation 0)
  the X gain \<open>coeffs[1]\<close> (front) is the same positive number for both speakers; it is the Y
  gain \<open>coeffs[2]\<close> (left) that is positive for the left speaker and negative for the right
  one, with equal magnitude.
\<close>

theorem stereo_gains_amended:
  "speaker_coeffs (StereoMap ! 0) ! 1 > 0
   \<and> speaker_coeffs (StereoMap ! 1) ! 1 = speaker_coeffs (StereoMap ! 0) ! 1
   \<and> speaker_coeffs (StereoMap ! 0) ! 2 > 0
   \<and> speaker_coeffs (StereoMap ! 1) ! 2 < 0
   \<and> speaker_coeffs (StereoMap ! 1) ! 2 = - speaker_coeffs (StereoMap ! 0) ! 2"
  unfolding stereo_left_coeffs stereo_right_coeffs by simp

subsection \<open>Playback data callback\<close>

lemma fold_channel_step:
  "n \<le> length ds \<Longrightarrow>
   fst (fold (channel_step ds) [0..<n] (l, p)) =
     fold min (map (\<lambda>d. maxsize d div sizeof_float) (take n ds)) l"
proof (induction n)
  case 0
  then show ?case by simp
next
  case (Suc n)
  then have "take (Suc n) ds = take n ds @ [ds ! n]"
    by (simp add: take_Suc_conv_app_nth)
  with Suc show ?case
    by (simp add: channel_step_def minu_def split_beta min.commute)
qed

lemma fold_min_Min: "fold min xs (l::nat) = Min (insert l (set xs))"
proof -
  have "Min (set (l # xs)) = fold min xs l" by (rule Min.set_eq_fold)
  then show ?thesis by simp
qed

text \<open>
  C4, as stated: whenever a buffer is dequeued, the number of frames rendered would be the
  minimum of the rate-match size, the configured update size and the smallest capacity of the
  used channels. It fails when the server hints more frames than the update size: with a
  rate-match size of 2048, an update size of 1024 and two channels of 16384 frames each, the
  callback renders 2048 frames.
\<close>

theorem outputCallback_frames_counterexample:
  "frames_rendered cb_playback (Some cb_buffer) \<noteq> Some (min_of_three 2048 cb_playback cb_buffer)"
proof -
  have "frames_rendered cb_playback (Some cb_buffer) = Some 2048"
    by (simp add: frames_rendered_def outputCallback_def cb_playback_def cb_buffer_def
        channel_step_def minu_def sizeof_float_def Let_def upt_rec)
  moreover have "min_of_three 2048 cb_playback cb_buffer = 1024"
    by (simp add: min_of_three_def cb_playback_def cb_buffer_def minu_def sizeof_float_def)
  ultimately show ?thesis by simp
qed

text \<open>
  C4, amended: whenever a buffer is dequeued, the number of frames rendered is the minimum of
  two quantities: the starting length, which is the rate-match size when the stream has a
  rate-match area and the configured update size otherwise, and the smallest per-channel
  capacity (\<open>maxsize / sizeof(float)\<close>) over the used channels.
\<close>

theorem outputCallback_frames:
  "frames_rendered pb (Some pw_buf)
     = Some (Min (insert (base_length pb) (set (used_capacities pb pw_buf))))"
proof -
  let ?n = "minu (mNumChannels pb) (length (datas pw_buf))"
  have n: "?n \<le> length (datas pw_buf)" by (simp add: minu_def)
  have "frames_rendered pb (Some pw_buf) =
        Some (fst (fold (channel_step (datas pw_buf)) [0..<?n] (base_length pb, mChannelPtrs pb)))"
    by (simp add: frames_rendered_def outputCallback_def Let_def split_beta base_length_def)
  also have "\<dots> = Some (fold min (used_capacities pb pw_buf) (base_length pb))"
    by (simp add: fold_channel_step [OF n] used_capacities_def)
  finally show ?thesis by (simp add: fold_min_Min)
qed

subsection \<open>Clock and latency\<close>

lemma sdiv_nonneg: "0 \<le> a \<Longrightarrow> 0 \<le> b \<Longrightarrow> a sdiv b = a div (b::int)"
  by (cases "a = 0"; cases "b = 0") (simp_all add: signed_divide_int_def sgn_if)

lemma split_ticks:
  assumes "0 < d"
  shows "int (t div d) * 1000000000 * int n + (int (t mod d) * int n * 1000000000) sdiv int d
         = (int t * int n * 1000000000) div int d"
proof -
  let ?c = "int n * 1000000000"
  have "(int (t mod d) * int n * 1000000000) sdiv int d = (int (t mod d) * ?c) div int d"
    by (simp add: sdiv_nonneg mult.assoc)
  moreover have "int t * ?c = int (t div d) * ?c * int d + int (t mod d) * ?c"
  proof -
    have "int t = int (t div d) * int d + int (t mod d)"
      by (metis div_mult_mod_eq of_nat_add of_nat_mult)
    then show ?thesis by (simp add: algebra_simps)
  qed
  moreover have "(int (t div d) * ?c * int d + int (t mod d) * ?c) div int d
        = int (t div d) * ?c + (int (t mod d) * ?c) div int d"
    using assms by simp
  ultimately show ?thesis by (simp add: mult.assoc mult.commute mult.left_commute)
qed

lemma getClockLatency_fallback:
  assumes "denom (rate (stream_ptime st)) < 1" "0 < Frequency (mDevice pb)"
  shows "getClockLatency pb st mixtime monoclock =
           Some \<lparr>ClockTime = mixtime,
                 Latency = int (BufferSize (mDevice pb)) * 1000000000 div int (Frequency (mDevice pb))\<rparr>"
proof -
  have "0 \<le> int (BufferSize (mDevice pb)) * 1000000000 div int (Frequency (mDevice pb))"
    using assms(2) by (simp add: pos_imp_zdiv_nonneg_iff)
  with assms show ?thesis
    by (simp add: getClockLatency_def Let_def sdiv_nonneg max_def)
qed

lemma getClockLatency_running:
  assumes "\<not> denom (rate (stream_ptime st)) < 1"
  shows "getClockLatency pb st mixtime monoclock =
           Some \<lparr>ClockTime = mixtime,
                 Latency = latency_formula (stream_delay_ns (stream_ptime st)) mixtime
                             (stream_tick_time pb (stream_ptime st)) monoclock (now (stream_ptime st))\<rparr>"
proof -
  have d: "0 < denom (rate (stream_ptime st))" using assms by simp
  have t: "mTimeBase pb + stream_ticks_ns (stream_ptime st) = stream_tick_time pb (stream_ptime st)"
    unfolding stream_ticks_ns_def stream_tick_time_def split_ticks [OF d] ..
  show ?thesis using assms
    by (simp add: getClockLatency_def Let_def t latency_formula_def max_def)
qed

text \<open>
  C5: \<^verbatim>\<open>getClockLatency\<close> returns the mixer time and a latency that is never negative. While
  the stream reports a rate (denominator at least 1), the latency is the server delay, plus
  the time the mixer is ahead of the stream time (which starts from the accumulated time
  base), minus the time since the tick report, floored at zero. Before that, the delay is
  \<open>BufferSize / Frequency\<close> (in nanoseconds). The hypothesis excludes the division by a zero
  \<^verbatim>\<open>Frequency\<close> in the fallback.
\<close>

theorem getClockLatency_latency:
  assumes "denom (rate (stream_ptime st)) < 1 \<Longrightarrow> 0 < Frequency (mDevice pb)"
  shows "\<exists>r. getClockLatency pb st mixtime monoclock = Some r
           \<and> ClockTime r = mixtime
           \<and> 0 \<le> Latency r
           \<and> Latency r =
               (if denom (rate (stream_ptime st)) < 1
                then int (BufferSize (mDevice pb)) * 1000000000 div int (Frequency (mDevice pb))
                else latency_formula (stream_delay_ns (stream_ptime st)) mixtime
                       (stream_tick_time pb (stream_ptime st)) monoclock (now (stream_ptime st)))"
proof (cases "denom (rate (stream_ptime st)) < 1")
  case True
  then have f: "0 < Frequency (mDevice pb)" by (rule assms)
  have "0 \<le> int (BufferSize (mDevice pb)) * 1000000000 div int (Frequency (mDevice pb))"
    using f by (simp add: pos_imp_zdiv_nonneg_iff)
  then show ?thesis using True by (simp add: getClockLatency_fallback [OF True f])
next
  case False
  then show ?thesis by (simp add: getClockLatency_running [OF False] latency_formula_def)
qed

theorem getClockLatency_latency_witness:
  "getClockLatency cb_playback None 7010000000 90000001000
     = Some \<lparr>ClockTime = 7010000000, Latency = 42666666\<rparr>
   \<and> getClockLatency (cb_playback\<lparr>mTimeBase := 5000000000\<rparr>)
       (Some \<lparr>now = 90000000000, rate = \<lparr>num = 1, denom = 48000\<rparr>, ticks = 96000, delay = 1024\<rparr>)
       7010000000 90000001000
     = Some \<lparr>ClockTime = 7010000000, Latency = 31332333\<rparr>"
proof -
  have f: "denom (rate (stream_ptime None)) < 1 \<Longrightarrow> 0 < Frequency (mDevice cb_playback)"
    by (simp add: cb_playback_def)
  have "getClockLatency cb_playback None 7010000000 90000001000
          = Some \<lparr>ClockTime = 7010000000, Latency = 42666666\<rparr>"
    using getClockLatency_latency [of None cb_playback 7010000000 90000001000, OF f]
    by (auto simp add: stream_ptime_def pw_time_zero_def cb_playback_def)
  moreover have "getClockLatency (cb_playback\<lparr>mTimeBase := 5000000000\<rparr>)
       (Some \<lparr>now = 90000000000, rate = \<lparr>num = 1, denom = 48000\<rparr>, ticks = 96000, delay = 1024\<rparr>)
       7010000000 90000001000
     = Some \<lparr>ClockTime = 7010000000, Latency = 31332333\<rparr>"
    using getClockLatency_latency [of
       "Some \<lparr>now = 90000000000, rate = \<lparr>num = 1, denom = 48000\<rparr>, ticks = 96000, delay = 1024\<rparr>"
       "cb_playback\<lparr>mTimeBase := 5000000000\<rparr>" 7010000000 90000001000]
    by (auto simp add: stream_ptime_def latency_formula_def stream_delay_ns_def
        stream_tick_time_def signed_divide_int_def cb_playback_def)
  ultimately show ?thesis by simp
qed

subsection \<open>Sample rate of a format event\<close>

lemma clampi_clamp: "mn \<le> mx \<Longrightarrow> clampi r mn mx = clamp_to_interval mn mx r"
  by (simp add: clampi_def clamp_to_interval_def)

lemma to_uint_id: "0 \<le> v \<Longrightarrow> v < 2 ^ 32 \<Longrightarrow> int (to_uint v) = v"
  by (simp add: to_uint_def)

lemma clamp_range: "mn \<le> mx \<Longrightarrow> mn \<le> clamp_to_interval mn mx r \<and> clamp_to_interval mn mx r \<le> mx"
  by (simp add: clamp_to_interval_def)

lemma pick_rate_find:
  "pick_rate mn mx rs node =
     (case find (in_rate_interval mn mx) rs of None \<Rightarrow> node
      | Some r \<Rightarrow> node\<lparr>mSampleRate := to_uint r\<rparr>)"
  by (induction rs) (simp_all add: in_rate_interval_def)

text \<open>
  C7: when a sample-rate event of integer type arrives, with \<open>0 \<le> MIN_OUTPUT_RATE \<le>
  MAX_OUTPUT_RATE < 2 ^ 32\<close>: for a single value (choice None) and for a default/min/max
  range, the stored rate becomes the reported default clamped into the interval; for an
  enumerated list it becomes the first listed value inside the interval (the default is
  listed first), and the node is left unchanged when no listed value is inside.
\<close>

theorem parse_srate_rate:
  assumes "0 \<le> mn" "mn \<le> mx" "mx < 2 ^ 32" "podType val = SPA_TYPE_Int"
  shows "(choiceType val = SPA_CHOICE_None \<and> body val = [d] \<longrightarrow>
            parse_srate mn mx node val = node\<lparr>mSampleRate := nat (clamp_to_interval mn mx d)\<rparr>)
       \<and> (choiceType val = SPA_CHOICE_Range \<and> body val = [d, lo, hi] \<longrightarrow>
            parse_srate mn mx node val = node\<lparr>mSampleRate := nat (clamp_to_interval mn mx d)\<rparr>)
       \<and> (choiceType val = SPA_CHOICE_Enum \<longrightarrow>
            parse_srate mn mx node val =
              (case find (in_rate_interval mn mx) (body val) of
                 None \<Rightarrow> node
               | Some r \<Rightarrow> node\<lparr>mSampleRate := nat r\<rparr>))"
proof -
  have u: "to_uint (clampi d mn mx) = nat (clamp_to_interval mn mx d)" for d
  proof -
    have "0 \<le> clamp_to_interval mn mx d" "clamp_to_interval mn mx d < 2 ^ 32"
      using assms clamp_range [of mn mx d] by auto
    then have "int (to_uint (clamp_to_interval mn mx d)) = clamp_to_interval mn mx d"
      by (rule to_uint_id)
    then show ?thesis using assms by (simp add: clampi_clamp nat_eq_iff)
  qed
  have e: "(case find (in_rate_interval mn mx) rs of None \<Rightarrow> node | Some r \<Rightarrow> node\<lparr>mSampleRate := to_uint r\<rparr>)
         = (case find (in_rate_interval mn mx) rs of None \<Rightarrow> node | Some r \<Rightarrow> node\<lparr>mSampleRate := nat r\<rparr>)" for rs
  proof (cases "find (in_rate_interval mn mx) rs")
    case None
    then show ?thesis by simp
  next
    case (Some r)
    then have "in_rate_interval mn mx r" by (auto simp: find_Some_iff)
    then have "0 \<le> r" "r < 2 ^ 32" using assms by (auto simp: in_rate_interval_def)
    then have "int (to_uint r) = r" by (rule to_uint_id)
    then have "to_uint r = nat r" by (simp add: nat_eq_iff)
    with Some show ?thesis by simp
  qed
  show ?thesis using assms(4)
    by (auto simp add: parse_srate_def u pick_rate_find e split: option.splits)
qed

theorem parse_srate_rate_witness:
  "parse_srate 8000 192000 example_node
       \<lparr>podType = SPA_TYPE_Int, choiceType = SPA_CHOICE_None, body = [44100]\<rparr>
     = example_node\<lparr>mSampleRate := 44100\<rparr>
   \<and> parse_srate 8000 192000 example_node
       \<lparr>podType = SPA_TYPE_Int, choiceType = SPA_CHOICE_Range, body = [4000, 1, 384000]\<rparr>
     = example_node\<lparr>mSampleRate := 8000\<rparr>
   \<and> parse_srate 8000 192000 example_node
       \<lparr>podType = SPA_TYPE_Int, choiceType = SPA_CHOICE_Enum, body = [384000, 48000, 44100]\<rparr>
     = example_node\<lparr>mSampleRate := 48000\<rparr>
   \<and> parse_srate 8000 192000 example_node
       \<lparr>podType = SPA_TYPE_Int, choiceType = SPA_CHOICE_Enum, body = [384000, 4000]\<rparr>
     = example_node"
proof -
  have h: "(0::int) \<le> 8000" "(8000::int) \<le> 192000" "(192000::int) < 2 ^ 32" by simp_all
  have "parse_srate 8000 192000 example_node
       \<lparr>podType = SPA_TYPE_Int, choiceType = SPA_CHOICE_None, body = [44100]\<rparr>
     = example_node\<lparr>mSampleRate := 44100\<rparr>"
    using parse_srate_rate [OF h, where node = example_node and d = 44100 and
        val = "\<lparr>podType = SPA_TYPE_Int, choiceType = SPA_CHOICE_None, body = [44100]\<rparr>"]
    by (simp add: clamp_to_interval_def)
  moreover have "parse_srate 8000 192000 example_node
       \<lparr>podType = SPA_TYPE_Int, choiceType = SPA_CHOICE_Range, body = [4000, 1, 384000]\<rparr>
     = example_node\<lparr>mSampleRate := 8000\<rparr>"
    using parse_srate_rate [OF h, where node = example_node and d = 4000 and lo = 1
        and hi = 384000 and
        val = "\<lparr>podType = SPA_TYPE_Int, choiceType = SPA_CHOICE_Range, body = [4000, 1, 384000]\<rparr>"]
    by (simp add: clamp_to_interval_def)
  moreover have "parse_srate 8000 192000 example_node
       \<lparr>podType = SPA_TYPE_Int, choiceType = SPA_CHOICE_Enum, body = [384000, 48000, 44100]\<rparr>
     = example_node\<lparr>mSampleRate := 48000\<rparr>"
    using parse_srate_rate [OF h, where node = example_node and
        val = "\<lparr>podType = SPA_TYPE_Int, choiceType = SPA_CHOICE_Enum, body = [384000, 48000, 44100]\<rparr>"]
    by (simp add: in_rate_interval_def)
  moreover have "parse_srate 8000 192000 example_node
       \<lparr>podType = SPA_TYPE_Int, choiceType = SPA_CHOICE_Enum, body = [384000, 4000]\<rparr>
     = example_node"
    using parse_srate_rate [OF h, where node = example_node and
        val = "\<lparr>podType = SPA_TYPE_Int, choiceType = SPA_CHOICE_Enum, body = [384000, 4000]\<rparr>"]
    by (simp add: in_rate_interval_def)
  ultimately show ?thesis by simp
qed

subsection \<open>Opening a device\<close>

lemma find_if_le: "find_if P xs \<le> length xs"
  by (induction xs) simp_all

lemma find_if_end: "find_if P xs = length xs \<longleftrightarrow> (\<forall>x \<in> set xs. \<not> P x)"
  using find_if_le [of P] by (induction xs) (auto simp: Suc_le_eq)

text \<open>
  C6: for every registry state and every explicitly given name that no registry entry of the
  session's direction carries (for capture: that is not "Monitor of " followed by the name of
  a playback entry either), \<^verbatim>\<open>open\<close> fails with \<open>NoDevice\<close>, and leaves the shared state
  (\<open>DeviceList\<close>, \<open>DefaultSinkDev\<close>, \<open>DefaultSourceDev\<close>, the counters) and the backend as they
  were.
\<close>

theorem open_unknown_name:
  "(\<not> playback_name_known g nm \<longrightarrow>
      PipeWirePlayback_open env g pb (Some nm) = (Some NoDevice, pb, g))
   \<and> (\<not> capture_name_known g nm \<longrightarrow>
      PipeWireCapture_open env connect_stream g cap (Some nm) = (Some NoDevice, cap, g))"
proof (intro conjI impI)
  assume "\<not> playback_name_known g nm"
  then have "find_if (\<lambda>n. \<not> mCapture n \<and> mName n = nm) (DeviceList g) = length (DeviceList g)"
    by (simp add: find_if_end playback_name_known_def)
  then show "PipeWirePlayback_open env g pb (Some nm) = (Some NoDevice, pb, g)"
    by (simp add: PipeWirePlayback_open_def)
next
  assume a: "\<not> capture_name_known g nm"
  then have c: "find_if (\<lambda>n. mCapture n \<and> mName n = nm) (DeviceList g) = length (DeviceList g)"
    by (simp add: find_if_end capture_name_known_def)
  have m: "find_if (\<lambda>n. \<not> mCapture n \<and> mName n = drop MonitorPrefixLen nm) (DeviceList g)
             = length (DeviceList g)"
    if p: "take MonitorPrefixLen nm = MonitorPrefix"
  proof -
    have "nm = MonitorPrefix @ drop MonitorPrefixLen nm"
      using append_take_drop_id [of MonitorPrefixLen nm] p by simp
    with a show ?thesis
      by (auto simp add: find_if_end capture_name_known_def)
  qed
  show "PipeWireCapture_open env connect_stream g cap (Some nm) = (Some NoDevice, cap, g)"
    using c m by (simp add: PipeWireCapture_open_def Let_def)
qed

theorem open_unknown_name_witness:
  "PipeWirePlayback_open \<lparr>loop_new_ok = True, loop_start_res = 0\<rparr> example_registry cb_playback
       (Some ''Mic'')
     = (Some NoDevice, cb_playback, example_registry)
   \<and> PipeWireCapture_open \<lparr>loop_new_ok = True, loop_start_res = 0\<rparr> (\<lambda>c. (None, c))
       example_registry example_capture (Some ''Monitor of Mic'')
     = (Some NoDevice, example_capture, example_registry)"
proof -
  have p: "\<not> playback_name_known example_registry ''Mic''"
    by (simp add: playback_name_known_def example_registry_def example_node_def)
  have c: "\<not> capture_name_known example_registry ''Monitor of Mic''"
    by (simp add: capture_name_known_def example_registry_def example_node_def MonitorPrefix_def)
  show ?thesis
    using open_unknown_name [of example_registry "''Mic''"
        "\<lparr>loop_new_ok = True, loop_start_res = 0\<rparr>" cb_playback]
      open_unknown_name [of example_registry "''Monitor of Mic''"
        "\<lparr>loop_new_ok = True, loop_start_res = 0\<rparr>" _ "\<lambda>c. (None, c)" example_capture]
      p c
    by blast
qed

subsection \<open>Probing\<close>

lemma open_keeps_registry:
  "DeviceList (snd (snd (PipeWirePlayback_open env g pb name))) = DeviceList g
   \<and> DefaultSinkDev (snd (snd (PipeWirePlayback_open env g pb name))) = DefaultSinkDev g
   \<and> DefaultSourceDev (snd (snd (PipeWirePlayback_open env g pb name))) = DefaultSourceDev g"
  by (simp add: PipeWirePlayback_open_def Let_def)

lemma capture_open_keeps_registry:
  "DeviceList (snd (snd (PipeWireCapture_open env cs g cap name))) = DeviceList g
   \<and> DefaultSinkDev (snd (snd (PipeWireCapture_open env cs g cap name))) = DefaultSinkDev g
   \<and> DefaultSourceDev (snd (snd (PipeWireCapture_open env cs g cap name))) = DefaultSourceDev g"
  by (simp add: PipeWireCapture_open_def Let_def split_beta)

lemma others_snoc:
  assumes "n < length xs"
  shows "others d (take (Suc n) xs)
         = (if n = d then others d (take n xs) else others d (take n xs) @ [xs ! n])"
proof -
  have t: "take (Suc n) xs = take n xs @ [xs ! n]"
    using assms by (simp add: take_Suc_conv_app_nth)
  have l: "length (take n xs) = n" using assms by simp
  consider "n < d" | "n = d" | "d < n" by linarith
  then show ?thesis
  proof cases
    case 1
    then show ?thesis unfolding others_def t using l by simp
  next
    case 2
    then show ?thesis unfolding others_def t using l by simp
  next
    case 3
    then have "Suc d \<le> n" by simp
    with 3 show ?thesis unfolding others_def t using l by simp
  qed
qed

lemma fold_names:
  "n \<le> length dl \<Longrightarrow>
   fold (\<lambda>iter out. if iter \<noteq> d \<and> P (dl ! iter) then out @ f (dl ! iter) else out) [0..<n] out0
     = out0 @ concat (map f (filter P (others d (take n dl))))"
proof (induction n)
  case 0
  then show ?case by (simp add: others_def)
next
  case (Suc n)
  then show ?case by (simp add: others_snoc)
qed

lemma fold_names_all:
  "fold (\<lambda>iter out. if iter \<noteq> d \<and> P (dl ! iter) then out @ f (dl ! iter) else out)
     [0..<length dl] out0
   = out0 @ concat (map f (filter P (others d dl)))"
  using fold_names [of "length dl" dl d P f out0] by simp

lemma probe_names_Playback:
  "probe_names Playback g = playback_names (DefaultSinkDev g) (DeviceList g)"
  using find_if_le [of "\<lambda>n. mDevName n = DefaultSinkDev g" "DeviceList g"]
    fold_names_all [of _ "\<lambda>n. \<not> mCapture n" "DeviceList g" name_entry]
  by (auto simp add: probe_names_def Let_def playback_names_def)

lemma probe_names_Capture:
  "probe_names Capture g = capture_names (DefaultSourceDev g) (DeviceList g)"
  using find_if_le [of "\<lambda>n. mDevName n = DefaultSourceDev g" "DeviceList g"]
    fold_names_all [of _ "\<lambda>n. \<not> mCapture n" "DeviceList g" "\<lambda>n. MonitorPrefix @ name_entry n"]
    fold_names_all [of _ "\<lambda>n. mCapture n" "DeviceList g" name_entry]
  by (auto simp add: probe_names_def Let_def capture_names_def)

lemma probe_Playback_names:
  "fst (probe Playback g) = playback_names (DefaultSinkDev g) (sort_key mId (DeviceList g))"
  by (simp add: probe_def Let_def probe_names_Playback)

lemma probe_Capture_names:
  "fst (probe Capture g) = capture_names (DefaultSourceDev g) (sort_key mId (DeviceList g))"
  by (simp add: probe_def Let_def probe_names_Capture)

lemma probe_registry:
  "snd (probe type g) = g\<lparr>DeviceList := sort_key mId (DeviceList g)\<rparr>"
  by (simp add: probe_def Let_def)

lemma set_others: "d < length xs \<Longrightarrow> set xs = insert (xs ! d) (set (others d xs))"
proof -
  assume "d < length xs"
  then have "xs = take d xs @ xs ! d # drop (Suc d) xs" by (simp add: id_take_nth_drop)
  then have "set xs = set (take d xs @ xs ! d # drop (Suc d) xs)" by simp
  then show ?thesis by (simp add: others_def)
qed

lemma others_end: "length xs \<le> d \<Longrightarrow> others d xs = xs"
  by (simp add: others_def)

lemma capture_names_monitor:
  assumes "n \<in> set dl" "\<not> mCapture n"
  shows "\<exists>pre post. capture_names def dl = pre @ MonitorPrefix @ name_entry n @ post"
proof -
  let ?d = "find_if (\<lambda>n. mDevName n = def) dl"
  let ?o = "filter (\<lambda>n. \<not> mCapture n) (others ?d dl)"
  show ?thesis
  proof (cases "?d < length dl \<and> dl ! ?d = n")
    case True
    then have "capture_names def dl = [] @ MonitorPrefix @ name_entry n @
        (concat (map name_entry (filter (\<lambda>n. mCapture n) (others ?d dl)))
         @ concat (map (\<lambda>n. MonitorPrefix @ name_entry n) ?o))"
      using assms by (simp add: capture_names_def Let_def)
    then show ?thesis by blast
  next
    case False
    have "n \<in> set (others ?d dl)"
    proof (cases "?d < length dl")
      case True
      with False assms set_others [OF True] show ?thesis by auto
    next
      case False
      then show ?thesis using assms by (simp add: others_end)
    qed
    then have "n \<in> set ?o" using assms by simp
    then obtain ys zs where o: "?o = ys @ n # zs" by (meson split_list)
    have "capture_names def dl =
        ((if ?d < length dl
          then (if mCapture (dl ! ?d) then [] else MonitorPrefix) @ name_entry (dl ! ?d) else [])
         @ concat (map name_entry (filter (\<lambda>n. mCapture n) (others ?d dl)))
         @ concat (map (\<lambda>n. MonitorPrefix @ name_entry n) ys))
        @ MonitorPrefix @ name_entry n @ concat (map (\<lambda>n. MonitorPrefix @ name_entry n) zs)"
      unfolding capture_names_def Let_def o by simp
    then show ?thesis by blast
  qed
qed

lemma playback_names_default:
  assumes "find_if (\<lambda>n. mDevName n = def) dl < length dl"
  shows "\<exists>rest. playback_names def dl = name_entry (dl ! find_if (\<lambda>n. mDevName n = def) dl) @ rest"
  using assms by (simp add: playback_names_def Let_def)

lemma capture_names_default:
  assumes "find_if (\<lambda>n. mDevName n = def) dl < length dl"
  shows "\<exists>rest. capture_names def dl =
           (if mCapture (dl ! find_if (\<lambda>n. mDevName n = def) dl) then [] else MonitorPrefix)
           @ name_entry (dl ! find_if (\<lambda>n. mDevName n = def) dl) @ rest"
  using assms by (simp add: capture_names_def Let_def)

text \<open>
  C10: \<^verbatim>\<open>probe\<close> changes the shared registry: the device list after the call is the list
  before, sorted into ascending id order (a permutation of it), and the default names are
  kept; \<^verbatim>\<open>open\<close> leaves the list as it is. The returned string is the default device's entry
  (when a node carries the default name), then the other devices of the direction; for
  capture the entries "Monitor of " of the other playback devices follow, so that every
  playback device has its monitor entry in the string.
\<close>

theorem probe_sorts_registry:
  "mset (DeviceList (snd (probe type g))) = mset (DeviceList g)
   \<and> sorted (map mId (DeviceList (snd (probe type g))))
   \<and> DefaultSinkDev (snd (probe type g)) = DefaultSinkDev g
   \<and> DefaultSourceDev (snd (probe type g)) = DefaultSourceDev g
   \<and> DeviceList (snd (snd (PipeWirePlayback_open env g pb name))) = DeviceList g
   \<and> DeviceList (snd (snd (PipeWireCapture_open env connect_stream g cap name))) = DeviceList g
   \<and> fst (probe Playback g)
       = playback_names (DefaultSinkDev g) (DeviceList (snd (probe Playback g)))
   \<and> fst (probe Capture g)
       = capture_names (DefaultSourceDev g) (DeviceList (snd (probe Capture g)))
   \<and> (find_if (\<lambda>n. mDevName n = DefaultSinkDev g) (DeviceList (snd (probe Playback g)))
         < length (DeviceList g) \<longrightarrow>
       (\<exists>rest. fst (probe Playback g)
          = name_entry (DeviceList (snd (probe Playback g))
                         ! find_if (\<lambda>n. mDevName n = DefaultSinkDev g)
                             (DeviceList (snd (probe Playback g))))
            @ rest))
   \<and> (find_if (\<lambda>n. mDevName n = DefaultSourceDev g) (DeviceList (snd (probe Capture g)))
         < length (DeviceList g) \<longrightarrow>
       (\<exists>rest. fst (probe Capture g)
          = (if mCapture (DeviceList (snd (probe Capture g))
                           ! find_if (\<lambda>n. mDevName n = DefaultSourceDev g)
                               (DeviceList (snd (probe Capture g))))
             then [] else MonitorPrefix)
            @ name_entry (DeviceList (snd (probe Capture g))
                           ! find_if (\<lambda>n. mDevName n = DefaultSourceDev g)
                               (DeviceList (snd (probe Capture g))))
            @ rest))
   \<and> (\<forall>n \<in> set (DeviceList g). \<not> mCapture n \<longrightarrow>
         (\<exists>pre post. fst (probe Capture g) = pre @ MonitorPrefix @ name_entry n @ post))"
proof -
  have dp: "\<exists>rest. playback_names (DefaultSinkDev g) (sort_key mId (DeviceList g))
          = name_entry (sort_key mId (DeviceList g)
                         ! find_if (\<lambda>n. mDevName n = DefaultSinkDev g) (sort_key mId (DeviceList g)))
            @ rest"
    if "find_if (\<lambda>n. mDevName n = DefaultSinkDev g) (sort_key mId (DeviceList g))
          < length (DeviceList g)"
    using that by (intro playback_names_default) simp
  have dc: "\<exists>rest. capture_names (DefaultSourceDev g) (sort_key mId (DeviceList g))
          = (if mCapture (sort_key mId (DeviceList g)
                           ! find_if (\<lambda>n. mDevName n = DefaultSourceDev g)
                               (sort_key mId (DeviceList g)))
             then [] else MonitorPrefix)
            @ name_entry (sort_key mId (DeviceList g)
                         ! find_if (\<lambda>n. mDevName n = DefaultSourceDev g) (sort_key mId (DeviceList g)))
            @ rest"
    if "find_if (\<lambda>n. mDevName n = DefaultSourceDev g) (sort_key mId (DeviceList g))
          < length (DeviceList g)"
    using that by (intro capture_names_default) simp
  have "\<exists>pre post. fst (probe Capture g) = pre @ MonitorPrefix @ name_entry n @ post"
    if "n \<in> set (DeviceList g)" "\<not> mCapture n" for n
  proof -
    have "n \<in> set (sort_key mId (DeviceList g))" using that by simp
    then show ?thesis
      unfolding probe_Capture_names using that(2) by (rule capture_names_monitor)
  qed
  then show ?thesis
    using dp dc
    by (simp add: probe_registry probe_Playback_names probe_Capture_names
        open_keeps_registry capture_open_keeps_registry)
qed

theorem probe_sorts_registry_witness:
  "map mId (DeviceList (snd (probe Capture example_registry))) = [34, 41, 57]
   \<and> fst (probe Capture example_registry)
       = ''Mic'' @ [NUL] @ ''Monitor of Ear'' @ [NUL] @ ''Monitor of Spk'' @ [NUL]
   \<and> fst (probe Playback example_registry) = ''Spk'' @ [NUL] @ ''Ear'' @ [NUL]
   \<and> (\<exists>pre post. fst (probe Capture example_registry)
         = pre @ MonitorPrefix @ name_entry example_node @ post)"
proof -
  have s: "sort_key mId (DeviceList example_registry)
        = [DeviceList example_registry ! 1, DeviceList example_registry ! 2, example_node]"
    by (simp add: example_registry_def example_node_def)
  have m: "example_node \<in> set (DeviceList example_registry)" "\<not> mCapture example_node"
    by (simp_all add: example_registry_def example_node_def)
  note t = probe_sorts_registry [of Capture example_registry]
  have "map mId (DeviceList (snd (probe Capture example_registry))) = [34, 41, 57]"
    by (simp add: probe_registry s) (simp add: example_registry_def example_node_def)
  moreover have "fst (probe Capture example_registry)
       = ''Mic'' @ [NUL] @ ''Monitor of Ear'' @ [NUL] @ ''Monitor of Spk'' @ [NUL]"
    using t by (simp add: probe_registry s capture_names_def others_def Let_def)
      (simp add: example_registry_def example_node_def name_entry_def MonitorPrefix_def)
  moreover have "fst (probe Playback example_registry) = ''Spk'' @ [NUL] @ ''Ear'' @ [NUL]"
    using t by (simp add: probe_registry s playback_names_def others_def Let_def)
      (simp add: example_registry_def example_node_def name_entry_def)
  moreover have "\<exists>pre post. fst (probe Capture example_registry)
         = pre @ MonitorPrefix @ name_entry example_node @ post"
    using t m by blast
  ultimately show ?thesis by blast
qed

subsection \<open>UHJ encoder: the loops in closed form\<close>

lemma length_put [simp]: "length (put dst d n g) = length dst"
  by (simp add: put_def)

lemma nth_put:
  "j < length dst \<Longrightarrow> put dst d n g ! j = (if d \<le> j \<and> j < d + n then g (j - d) else dst ! j)"
  by (simp add: put_def)

lemma put_0 [simp]: "put dst d 0 g = dst"
  by (rule nth_equalityI) (auto simp add: nth_put)

lemma put_Suc:
  "d + n < length dst \<Longrightarrow> (put dst d n g)[d + n := g n] = put dst d (Suc n) g"
  by (rule nth_equalityI) (auto simp add: nth_put nth_list_update)

lemma rd_Some [simp]: "i < length xs \<Longrightarrow> rd xs i = Some (xs ! i)"
  by (simp add: rd_def)

lemma wr_Some [simp]: "i < length xs \<Longrightarrow> wr xs i v = Some (xs[i := v])"
  by (simp add: wr_def)

lemma for_loop_put:
  assumes "d + n \<le> length dst"
    and "\<And>i. i < n \<Longrightarrow> step i (put dst d i g) = Some ((put dst d i g)[d + i := g i])"
  shows "for_loop n step dst = Some (put dst d n g)"
  using assms
proof (induction n)
  case 0
  then show ?case by simp
next
  case (Suc n)
  then have "for_loop n step dst = Some (put dst d n g)" by simp
  moreover have "step n (put dst d n g) = Some ((put dst d n g)[d + n := g n])"
    using Suc.prems by simp
  moreover have "(put dst d n g)[d + n := g n] = put dst d (Suc n) g"
    using Suc.prems by (simp add: put_Suc)
  ultimately show ?case by simp
qed

lemma transform2_put:
  assumes "n \<le> length a" "n \<le> length b" "d + n \<le> length dst"
  shows "transform2 a b n dst d f = Some (put dst d n (\<lambda>i. f (a ! i) (b ! i)))"
  unfolding transform2_def using assms by (intro for_loop_put) simp_all

lemma transform1_put:
  assumes "n \<le> length a" "d + n \<le> length dst"
  shows "transform1 a n dst d f = Some (put dst d n (\<lambda>i. f (a ! i)))"
  unfolding transform1_def using assms by (intro for_loop_put) simp_all

lemma copy_n_put:
  assumes "first + n \<le> length src" "d + n \<le> length dst"
  shows "copy_n src first n dst d = Some (put dst d n (\<lambda>i. src ! (first + i)))"
  unfolding copy_n_def using assms by (intro for_loop_put) simp_all

lemma copy_within_put:
  assumes "first + n \<le> length buf"
  shows "copy_within buf first n 0 = Some (put buf 0 n (\<lambda>i. buf ! (first + i)))"
  unfolding copy_within_def
proof (rule for_loop_put)
  show "0 + n \<le> length buf" using assms by simp
next
  fix i assume i: "i < n"
  have "put buf 0 i (\<lambda>i. buf ! (first + i)) ! (first + i) = buf ! (first + i)"
    using assms i by (simp add: nth_put)
  then show "rd (put buf 0 i (\<lambda>i. buf ! (first + i))) (first + i)
         \<bind> wr (put buf 0 i (\<lambda>i. buf ! (first + i))) (0 + i)
       = Some ((put buf 0 i (\<lambda>i. buf ! (first + i)))[0 + i := buf ! (first + i)])"
    using assms i by simp
qed

lemma fir_Some:
  assumes "i + length coeffs \<le> length src"
  shows "fir coeffs src i = Some (fir_sum coeffs src i)"
proof -
  have "m \<le> length coeffs \<Longrightarrow>
        for_loop m (\<lambda>k ret. do { x \<leftarrow> rd src (i + k); Some (ret + x * coeffs ! k) }) 0
          = Some (fold (\<lambda>k ret. ret + src ! (i + k) * coeffs ! k) [0..<m] 0)" for m
    using assms by (induction m) simp_all
  then show ?thesis by (simp add: fir_def fir_sum_def)
qed

lemma processAccum_put:
  assumes "n \<le> length dst" "n + length coeffs \<le> Suc (length src)"
  shows "processAccum coeffs dst n src = Some (put dst 0 n (\<lambda>i. dst ! i + fir_sum coeffs src i))"
  unfolding processAccum_def
proof (rule for_loop_put)
  show "0 + n \<le> length dst" using assms by simp
next
  fix i assume i: "i < n"
  let ?g = "\<lambda>i. dst ! i + fir_sum coeffs src i"
  have f: "fir coeffs src i = Some (fir_sum coeffs src i)"
    using assms i by (intro fir_Some) simp
  have "put dst 0 i ?g ! i = dst ! i" using assms i by (simp add: nth_put)
  then show "fir coeffs src i \<bind> (\<lambda>ret. rd (put dst 0 i ?g) i \<bind> (\<lambda>out. wr (put dst 0 i ?g) i (out + ret)))
       = Some ((put dst 0 i ?g)[0 + i := ?g i])"
    using assms i by (simp add: f)
qed

lemma buffer_lines_nth:
  "buffer_lines InSamples \<Longrightarrow> c < 3 \<Longrightarrow> c < length InSamples \<and> length (InSamples ! c) = BufferLineSize"
  by (simp add: buffer_lines_def)

lemma for_loop_out:
  assumes "n \<le> length out" "n \<le> length a" "n \<le> length b"
  shows "for_loop n (\<lambda>i out. do { s \<leftarrow> rd a i; d \<leftarrow> rd b i; wr out i (f s d) }) out
         = Some (put out 0 n (\<lambda>i. f (a ! i) (b ! i)))"
proof (rule for_loop_put)
  show "0 + n \<le> length out" using assms by simp
next
  fix i assume "i < n"
  then show "rd a i \<bind> (\<lambda>s. rd b i \<bind> (\<lambda>d. wr (put out 0 i (\<lambda>i. f (a ! i) (b ! i))) i (f s d)))
     = Some ((put out 0 i (\<lambda>i. f (a ! i) (b ! i)))[0 + i := f (a ! i) (b ! i)])"
    using assms by simp
qed

lemma encode_mix_eq:
  assumes sz: "array_sizes enc"
    and lo: "length LeftOut = BufferLineSize" and ro: "length RightOut = BufferLineSize"
    and ins: "buffer_lines InSamples"
    and ps: "length PShift \<le> sFilterDelay * 2"
    and n: "SamplesToDo \<le> BufferLineSize"
  shows "encode_mix lit PShift enc LeftOut RightOut InSamples SamplesToDo =
    Some (mid_state lit PShift enc InSamples SamplesToDo,
          put LeftOut 0 SamplesToDo
            (\<lambda>i. (mid_S lit enc InSamples SamplesToDo ! i
                    + mid_D lit PShift enc InSamples SamplesToDo ! i) * lit 0.5),
          put RightOut 0 SamplesToDo
            (\<lambda>i. (mid_S lit enc InSamples SamplesToDo ! i
                    - mid_D lit PShift enc InSamples SamplesToDo ! i) * lit 0.5))"
proof -
  let ?n = SamplesToDo
  have i0: "0 < length InSamples" "length (InSamples ! 0) = BufferLineSize"
    and i1: "1 < length InSamples" "length (InSamples ! 1) = BufferLineSize"
    and i2: "2 < length InSamples" "length (InSamples ! 2) = BufferLineSize"
    using buffer_lines_nth [OF ins, of 0] buffer_lines_nth [OF ins, of 1]
      buffer_lines_nth [OF ins, of 2] by simp_all
  have ls: "length (mS enc) = BufferLineSize + sFilterDelay"
    and ld: "length (mD enc) = BufferLineSize + sFilterDelay"
    and lh: "length (mWXHistory enc) = sFilterDelay * 2 - 1"
    and lt: "length (mTemp enc) = BufferLineSize + sFilterDelay * 2"
    using sz by (simp_all add: array_sizes_def)
  have fd: "0 < sFilterDelay" by (simp add: sFilterDelay_def)
  have r0: "rd InSamples 0 = Some (InSamples ! 0)" using i0 by simp
  have r1: "rd InSamples 1 = Some (InSamples ! 1)" using i1 by simp
  have r2: "rd InSamples 2 = Some (InSamples ! 2)" using i2 by simp
  have s1: "transform2 (InSamples ! 0) (InSamples ! 1) ?n (mS enc) sFilterDelay f
        = Some (put (mS enc) sFilterDelay ?n (\<lambda>i. f (InSamples ! 0 ! i) (InSamples ! 1 ! i)))" for f
    using n i0 i1 ls by (intro transform2_put) simp_all
  have d1: "transform1 (InSamples ! 2) ?n (mD enc) sFilterDelay f
        = Some (put (mD enc) sFilterDelay ?n (\<lambda>i. f (InSamples ! 2 ! i)))" for f
    using n i2 ld by (intro transform1_put) simp_all
  have t1: "copy_n (mWXHistory enc) 0 (length (mWXHistory enc)) (mTemp enc) 0
        = Some (put (mTemp enc) 0 (length (mWXHistory enc)) (\<lambda>i. mWXHistory enc ! (0 + i)))"
    using lh lt by (intro copy_n_put) simp_all
  have t2: "transform2 (InSamples ! 0) (InSamples ! 1) ?n
          (put (mTemp enc) 0 (length (mWXHistory enc)) (\<lambda>i. mWXHistory enc ! i))
          (length (mWXHistory enc)) f
        = Some (put (put (mTemp enc) 0 (length (mWXHistory enc)) (\<lambda>i. mWXHistory enc ! i))
                 (length (mWXHistory enc)) ?n (\<lambda>i. f (InSamples ! 0 ! i) (InSamples ! 1 ! i)))" for f
    using n i0 i1 lh lt fd by (intro transform2_put) simp_all
  have h1: "copy_n (mid_Temp lit enc InSamples ?n) ?n (length (mWXHistory enc)) (mWXHistory enc) 0
        = Some (put (mWXHistory enc) 0 (length (mWXHistory enc))
                 (\<lambda>i. mid_Temp lit enc InSamples ?n ! (?n + i)))"
    using n lh lt fd by (intro copy_n_put) (simp_all add: mid_Temp_def)
  have d2: "processAccum PShift (put (mD enc) sFilterDelay ?n g) ?n (mid_Temp lit enc InSamples ?n)
        = Some (put (put (mD enc) sFilterDelay ?n g) 0 ?n
                 (\<lambda>i. put (mD enc) sFilterDelay ?n g ! i + fir_sum PShift (mid_Temp lit enc InSamples ?n) i))" for g
    using n ld lt ps by (intro processAccum_put) (simp_all add: mid_Temp_def)
  have lS: "length (mid_S lit enc InSamples ?n) = BufferLineSize + sFilterDelay"
    by (simp add: mid_S_def ls)
  have lD: "length (mid_D lit PShift enc InSamples ?n) = BufferLineSize + sFilterDelay"
    by (simp add: mid_D_def ld)
  have l: "for_loop ?n (\<lambda>i out. do { s \<leftarrow> rd (mid_S lit enc InSamples ?n) i;
                 d \<leftarrow> rd (mid_D lit PShift enc InSamples ?n) i; wr out i (f s d) }) out
        = Some (put out 0 ?n (\<lambda>i. f (mid_S lit enc InSamples ?n ! i)
                                     (mid_D lit PShift enc InSamples ?n ! i)))"
    if "length out = BufferLineSize" for out f
    using n that lS lD by (intro for_loop_out) simp_all
  have m: "mid_Temp lit enc InSamples ?n
      = put (put (mTemp enc) 0 (length (mWXHistory enc)) (\<lambda>i. mWXHistory enc ! i))
         (length (mWXHistory enc)) ?n
         (\<lambda>i. - lit 0.3420201 * InSamples ! 0 ! i + lit 0.5098604 * InSamples ! 1 ! i)"
    by (simp add: mid_Temp_def)
  show ?thesis
    unfolding encode_mix_def
    apply (simp only: r0 r1 r2 bind.bind_lunit s1 d1 t1 add_0 t2)
    apply (simp only: m [symmetric] mid_S_def [symmetric])
    apply (simp only: h1 d2 bind.bind_lunit)
    apply (simp only: mid_D_def [symmetric] l [OF lo] l [OF ro] bind.bind_lunit)
    apply (simp add: mid_state_def)
    done
qed

lemma encode_keep_eq:
  assumes "length (mS enc) = BufferLineSize + sFilterDelay"
    "length (mD enc) = BufferLineSize + sFilterDelay" "SamplesToDo \<le> BufferLineSize"
  shows "encode_keep enc SamplesToDo = Some (kept_state enc SamplesToDo)"
proof -
  have "copy_within (mS enc) SamplesToDo sFilterDelay 0
          = Some (put (mS enc) 0 sFilterDelay (\<lambda>i. mS enc ! (SamplesToDo + i)))"
    using assms by (intro copy_within_put) simp
  moreover have "copy_within (mD enc) SamplesToDo sFilterDelay 0
          = Some (put (mD enc) 0 sFilterDelay (\<lambda>i. mD enc ! (SamplesToDo + i)))"
    using assms by (intro copy_within_put) simp
  ultimately show ?thesis by (simp add: encode_keep_def kept_state_def)
qed

lemma mid_state_sizes:
  "array_sizes enc \<Longrightarrow> array_sizes (mid_state lit PShift enc InSamples n)"
  by (simp add: array_sizes_def mid_state_def mid_S_def mid_D_def mid_Temp_def)

lemma kept_state_sizes: "array_sizes enc \<Longrightarrow> array_sizes (kept_state enc n)"
  by (simp add: array_sizes_def kept_state_def)

lemma encode_eq:
  assumes sz: "array_sizes enc"
    and lo: "length LeftOut = BufferLineSize" and ro: "length RightOut = BufferLineSize"
    and ins: "buffer_lines InSamples"
    and ps: "length PShift \<le> sFilterDelay * 2"
    and n: "SamplesToDo \<le> BufferLineSize"
  shows "encode lit PShift enc LeftOut RightOut InSamples SamplesToDo =
    Some (kept_state (mid_state lit PShift enc InSamples SamplesToDo) SamplesToDo,
          put LeftOut 0 SamplesToDo
            (\<lambda>i. (mid_S lit enc InSamples SamplesToDo ! i
                    + mid_D lit PShift enc InSamples SamplesToDo ! i) * lit 0.5),
          put RightOut 0 SamplesToDo
            (\<lambda>i. (mid_S lit enc InSamples SamplesToDo ! i
                    - mid_D lit PShift enc InSamples SamplesToDo ! i) * lit 0.5))"
proof -
  have "array_sizes (mid_state lit PShift enc InSamples SamplesToDo)"
    using sz by (rule mid_state_sizes)
  then have "encode_keep (mid_state lit PShift enc InSamples SamplesToDo) SamplesToDo
      = Some (kept_state (mid_state lit PShift enc InSamples SamplesToDo) SamplesToDo)"
    using n by (intro encode_keep_eq) (simp_all add: array_sizes_def)
  then show ?thesis
    by (simp add: encode_def encode_mix_eq [OF assms])
qed

lemma encode_sizes:
  assumes "array_sizes enc" "valid_call (LeftOut, RightOut, InSamples, SamplesToDo)"
    "length PShift \<le> sFilterDelay * 2"
  shows "\<exists>enc' left right.
           encode lit PShift enc LeftOut RightOut InSamples SamplesToDo = Some (enc', left, right)
           \<and> array_sizes enc' \<and> length left = BufferLineSize \<and> length right = BufferLineSize"
proof -
  have v: "length LeftOut = BufferLineSize" "length RightOut = BufferLineSize"
    "buffer_lines InSamples" "SamplesToDo \<le> BufferLineSize"
    using assms(2) by (simp_all add: valid_call_def)
  show ?thesis
    using assms(1) v
    by (simp add: encode_eq [OF assms(1) v(1,2,3) assms(3) v(4)] kept_state_sizes mid_state_sizes)
qed

lemma encode_calls_sizes:
  assumes "length PShift \<le> sFilterDelay * 2"
  shows "array_sizes enc \<Longrightarrow> \<forall>c \<in> set cs. valid_call c \<Longrightarrow>
         \<exists>enc'. encode_calls lit PShift enc cs = Some enc' \<and> array_sizes enc'"
proof (induction cs arbitrary: enc)
  case Nil
  then show ?case by simp
next
  case (Cons c cs)
  obtain LeftOut RightOut InSamples n where c: "c = (LeftOut, RightOut, InSamples, n)"
    by (cases c) auto
  have "valid_call (LeftOut, RightOut, InSamples, n)" using Cons.prems c by simp
  from encode_sizes [OF Cons.prems(1) this assms, of lit]
  obtain enc1 left right where
    e: "encode lit PShift enc LeftOut RightOut InSamples n = Some (enc1, left, right)"
    and s: "array_sizes enc1" by blast
  have "\<exists>enc'. encode_calls lit PShift enc1 cs = Some enc' \<and> array_sizes enc'"
    using Cons.IH [OF s] Cons.prems by simp
  then show ?case by (simp add: c e)
qed

lemma for_loop_fail:
  assumes "k < n" "\<And>s. step k s = None"
  shows "for_loop n step s0 = None"
  using assms(1)
proof (induction n)
  case 0
  then show ?case by simp
next
  case (Suc n)
  show ?case
  proof (cases "k = n")
    case True
    then show ?thesis using assms(2) by (cases "for_loop n step s0") simp_all
  next
    case False
    then have "for_loop n step s0 = None" using Suc by simp
    then show ?thesis by simp
  qed
qed

lemma encode_overrun:
  assumes "buffer_lines InSamples" "BufferLineSize < SamplesToDo"
  shows "encode lit PShift enc LeftOut RightOut InSamples SamplesToDo = None"
proof -
  have i0: "0 < length InSamples" "length (InSamples ! 0) = BufferLineSize"
    using buffer_lines_nth [OF assms(1), of 0] by simp_all
  have "transform2 (InSamples ! 0) xinput SamplesToDo dst d f = None" for xinput dst d f
    unfolding transform2_def
    by (rule for_loop_fail [OF assms(2)]) (simp add: rd_def i0)
  then have "encode_mix lit PShift enc LeftOut RightOut InSamples SamplesToDo = None"
    using i0 by (cases "rd InSamples 1"; cases "rd InSamples 2") (simp_all add: encode_mix_def)
  then show ?thesis by (simp add: encode_def)
qed

lemma mid_S_nth:
  assumes "array_sizes enc" "n \<le> BufferLineSize"
  shows "i < n \<Longrightarrow> mid_S lit enc InSamples n ! (sFilterDelay + i)
           = lit 0.9396926 * InSamples ! 0 ! i + lit 0.1855740 * InSamples ! 1 ! i"
    and "j < sFilterDelay \<Longrightarrow> mid_S lit enc InSamples n ! j = mS enc ! j"
  using assms by (simp_all add: mid_S_def nth_put array_sizes_def)

lemma mid_D_nth:
  assumes "array_sizes enc" "n \<le> BufferLineSize"
  shows "i < n \<Longrightarrow> mid_D lit PShift enc InSamples n ! (sFilterDelay + i)
           = lit 0.6554516 * InSamples ! 2 ! i"
    and "i < n \<Longrightarrow> mid_D lit PShift enc InSamples n ! i
           = mD enc ! i + fir_sum PShift (mid_Temp lit enc InSamples n) i"
    and "n \<le> j \<Longrightarrow> j < sFilterDelay \<Longrightarrow> mid_D lit PShift enc InSamples n ! j = mD enc ! j"
  using assms
  by (simp_all add: mid_D_def nth_put array_sizes_def BufferLineSize_def sFilterDelay_def)

lemma mid_outside:
  assumes "array_sizes enc" "n \<le> BufferLineSize" "k < sFilterDelay"
  shows "mid_S lit enc InSamples n ! (n + k)
           = (take sFilterDelay (mS enc)
              @ map (\<lambda>i. lit 0.9396926 * InSamples ! 0 ! i + lit 0.1855740 * InSamples ! 1 ! i) [0..<n])
             ! (n + k)"
    and "mid_D lit PShift enc InSamples n ! (n + k)
           = (take sFilterDelay (mD enc) @ map (\<lambda>i. lit 0.6554516 * InSamples ! 2 ! i) [0..<n])
             ! (n + k)"
  using assms
  by (auto simp add: mid_S_def mid_D_def nth_put array_sizes_def nth_append
      BufferLineSize_def sFilterDelay_def)

lemma kept_state_nth:
  assumes "array_sizes enc" "n \<le> BufferLineSize" "k < sFilterDelay"
  shows "mS (kept_state enc n) ! k = mS enc ! (n + k)"
    and "mD (kept_state enc n) ! k = mD enc ! (n + k)"
  using assms by (simp_all add: kept_state_def nth_put array_sizes_def)

lemma take_eq_drop_window:
  assumes "fd \<le> length xs" "length h = fd" "length s = n"
    and "\<And>k. k < fd \<Longrightarrow> xs ! k = (h @ s) ! (n + k)"
  shows "take fd xs = drop n (h @ s)"
proof (rule nth_equalityI)
  show "length (take fd xs) = length (drop n (h @ s))" using assms(1,2,3) by simp
next
  fix k assume "k < length (take fd xs)"
  then have k: "k < fd" by simp
  have "n \<le> length (h @ s)" using assms(3) by simp
  then have "drop n (h @ s) ! k = (h @ s) ! (n + k)" by (rule nth_drop)
  then show "take fd xs ! k = drop n (h @ s) ! k" using k assms(4) by simp
qed

lemma kept_window:
  assumes sz: "array_sizes enc" and n: "n \<le> BufferLineSize"
  shows "take sFilterDelay (mS (kept_state (mid_state lit PShift enc InSamples n) n))
           = drop n (take sFilterDelay (mS enc)
              @ map (\<lambda>i. lit 0.9396926 * InSamples ! 0 ! i + lit 0.1855740 * InSamples ! 1 ! i) [0..<n])"
    and "take sFilterDelay (mD (kept_state (mid_state lit PShift enc InSamples n) n))
           = drop n (take sFilterDelay (mD enc) @ map (\<lambda>i. lit 0.6554516 * InSamples ! 2 ! i) [0..<n])"
proof -
  let ?mid = "mid_state lit PShift enc InSamples n"
  have m: "array_sizes ?mid" using sz by (rule mid_state_sizes)
  have k: "array_sizes (kept_state ?mid n)" using m by (rule kept_state_sizes)
  have ls: "length (take sFilterDelay (mS enc)) = sFilterDelay"
    "length (take sFilterDelay (mD enc)) = sFilterDelay"
    using sz by (simp_all add: array_sizes_def)
  have lk: "sFilterDelay \<le> length (mS (kept_state ?mid n))"
    "sFilterDelay \<le> length (mD (kept_state ?mid n))"
    using k by (simp_all add: array_sizes_def)
  have sel: "mS ?mid = mid_S lit enc InSamples n" "mD ?mid = mid_D lit PShift enc InSamples n"
    by (simp_all add: mid_state_def)
  show "take sFilterDelay (mS (kept_state ?mid n))
           = drop n (take sFilterDelay (mS enc)
              @ map (\<lambda>i. lit 0.9396926 * InSamples ! 0 ! i + lit 0.1855740 * InSamples ! 1 ! i) [0..<n])"
  proof (rule take_eq_drop_window [OF lk(1) ls(1)])
    show "length (map (\<lambda>i. lit 0.9396926 * InSamples ! 0 ! i + lit 0.1855740 * InSamples ! 1 ! i)
            [0..<n]) = n" by simp
  next
    fix i assume i: "i < sFilterDelay"
    show "mS (kept_state ?mid n) ! i
        = (take sFilterDelay (mS enc)
            @ map (\<lambda>i. lit 0.9396926 * InSamples ! 0 ! i + lit 0.1855740 * InSamples ! 1 ! i) [0..<n])
          ! (n + i)"
      unfolding kept_state_nth(1) [OF m n i] sel by (rule mid_outside(1) [OF sz n i])
  qed
  show "take sFilterDelay (mD (kept_state ?mid n))
           = drop n (take sFilterDelay (mD enc) @ map (\<lambda>i. lit 0.6554516 * InSamples ! 2 ! i) [0..<n])"
  proof (rule take_eq_drop_window [OF lk(2) ls(2)])
    show "length (map (\<lambda>i. lit 0.6554516 * InSamples ! 2 ! i) [0..<n]) = n" by simp
  next
    fix i assume i: "i < sFilterDelay"
    show "mD (kept_state ?mid n) ! i
        = (take sFilterDelay (mD enc) @ map (\<lambda>i. lit 0.6554516 * InSamples ! 2 ! i) [0..<n]) ! (n + i)"
      unfolding kept_state_nth(2) [OF m n i] sel by (rule mid_outside(2) [OF sz n i])
  qed
qed

lemma fold_sum:
  "fold (\<lambda>k ret. ret + f k) [0..<m] (0::real) = (\<Sum>k<m. f k)"
  by (induction m) simp_all

lemma fir_sum_real:
  "fir_sum h src i = (\<Sum>k<length h. src ! (i + k) * (h ! k :: real))"
  by (simp add: fir_sum_def fold_sum)

lemma silence_lines: "buffer_lines silence"
  by (simp add: silence_def buffer_lines_def)

lemma impulse_lines: "buffer_lines impulse"
  by (simp add: impulse_def buffer_lines_def BufferLineSize_def)

lemma init_sizes: "array_sizes UhjEncoder_init"
  by (simp add: array_sizes_def UhjEncoder_init_def)

lemma init_fields:
  "mS UhjEncoder_init = replicate (BufferLineSize + sFilterDelay) 0"
  "mD UhjEncoder_init = replicate (BufferLineSize + sFilterDelay) 0"
  "mWXHistory UhjEncoder_init = replicate (sFilterDelay * 2 - 1) 0"
  "mTemp UhjEncoder_init = replicate (BufferLineSize + sFilterDelay * 2) 0"
  by (simp_all add: UhjEncoder_init_def)

lemma impulse_nth:
  "impulse ! 0 ! 0 = 1" "impulse ! 1 ! 0 = 0" "impulse ! Suc 0 ! 0 = 0" "impulse ! 2 ! 0 = 0"
  by (simp_all add: impulse_def BufferLineSize_def)

lemma one_le: "1 \<le> BufferLineSize"
  by (simp add: BufferLineSize_def)

lemma example_taps_length: "length example_taps = sFilterDelay * 2"
  by (simp add: example_taps_def)

subsection \<open>UHJ encoder: bounds\<close>

text \<open>
  C9: after any sequence of calls with \<open>SamplesToDo \<le> BufferLineSize\<close> on an encoder whose
  arrays have their declared sizes, a call with \<open>SamplesToDo \<le> BufferLineSize\<close> performs no
  access out of bounds: \<open>encode\<close> returns a result (the out-of-bounds value \<open>None\<close> is not
  reached), and the arrays keep their sizes. The coefficient table has at most
  \<open>2 * sFilterDelay\<close> taps, the size the filter is declared with.
\<close>

theorem encode_in_bounds:
  assumes "array_sizes enc0" "\<forall>c \<in> set calls. valid_call c"
    and "length LeftOut = BufferLineSize" "length RightOut = BufferLineSize"
    and "buffer_lines InSamples" "length PShift \<le> sFilterDelay * 2"
    and "SamplesToDo \<le> BufferLineSize"
  shows "\<exists>enc enc' left right.
           encode_calls lit PShift enc0 calls = Some enc
           \<and> encode lit PShift enc LeftOut RightOut InSamples SamplesToDo = Some (enc', left, right)
           \<and> array_sizes enc' \<and> length left = BufferLineSize \<and> length right = BufferLineSize"
proof -
  obtain enc where e: "encode_calls lit PShift enc0 calls = Some enc" and s: "array_sizes enc"
    using encode_calls_sizes [OF assms(6) assms(1,2)] by blast
  have "valid_call (LeftOut, RightOut, InSamples, SamplesToDo)"
    using assms by (simp add: valid_call_def)
  from encode_sizes [OF s this assms(6), of lit] e show ?thesis by blast
qed

theorem encode_in_bounds_witness:
  "\<exists>enc enc' left right.
     encode_calls (\<lambda>x. x) example_taps UhjEncoder_init
       [(replicate BufferLineSize 0, replicate BufferLineSize 0, silence, sFilterDelay)] = Some enc
     \<and> encode (\<lambda>x. x) example_taps enc (replicate BufferLineSize 0) (replicate BufferLineSize 0)
         impulse 1 = Some (enc', left, right)
     \<and> array_sizes enc' \<and> length left = BufferLineSize \<and> length right = BufferLineSize"
proof -
  have "\<forall>c \<in> set [(replicate BufferLineSize (0::real), replicate BufferLineSize (0::real),
                    silence, sFilterDelay)]. valid_call c"
    by (simp add: valid_call_def silence_lines sFilterDelay_def BufferLineSize_def)
  then show ?thesis
    by (intro encode_in_bounds init_sizes impulse_lines one_le)
      (simp_all add: example_taps_length)
qed

subsection \<open>UHJ encoder: the history\<close>

text \<open>
  C2: after any sequence of calls, a call with \<open>SamplesToDo \<le> BufferLineSize\<close> returns with
  the first \<open>sFilterDelay\<close> samples of \<open>mS\<close> and \<open>mD\<close> equal to the samples that were at the
  positions \<open>SamplesToDo, ..., SamplesToDo + sFilterDelay - 1\<close> of these buffers at the end of
  the processing (the state \<open>mid\<close>). In terms of the signals: the history after the call is
  the history before it followed by the new mid (side) samples, with the first \<open>SamplesToDo\<close>
  samples dropped, so the trailing samples of one call lead the next one.
\<close>

theorem encode_keeps_history:
  assumes "array_sizes enc0" "\<forall>c \<in> set calls. valid_call c"
    and lo: "length LeftOut = BufferLineSize" and ro: "length RightOut = BufferLineSize"
    and ins: "buffer_lines InSamples"
    and ps: "length PShift \<le> sFilterDelay * 2"
    and n: "SamplesToDo \<le> BufferLineSize"
  shows "\<exists>enc mid enc' left right.
      encode_calls lit PShift enc0 calls = Some enc
    \<and> encode_mix lit PShift enc LeftOut RightOut InSamples SamplesToDo = Some (mid, left, right)
    \<and> encode lit PShift enc LeftOut RightOut InSamples SamplesToDo = Some (enc', left, right)
    \<and> array_sizes enc'
    \<and> (\<forall>k < sFilterDelay.
          mS enc' ! k = mS mid ! (SamplesToDo + k) \<and> mD enc' ! k = mD mid ! (SamplesToDo + k))
    \<and> take sFilterDelay (mS enc')
        = drop SamplesToDo (take sFilterDelay (mS enc)
            @ map (\<lambda>i. lit 0.9396926 * InSamples ! 0 ! i + lit 0.1855740 * InSamples ! 1 ! i)
                [0..<SamplesToDo])
    \<and> take sFilterDelay (mD enc')
        = drop SamplesToDo (take sFilterDelay (mD enc)
            @ map (\<lambda>i. lit 0.6554516 * InSamples ! 2 ! i) [0..<SamplesToDo])"
proof -
  obtain enc where e: "encode_calls lit PShift enc0 calls = Some enc" and sz: "array_sizes enc"
    using encode_calls_sizes [OF ps assms(1,2)] by blast
  let ?mid = "mid_state lit PShift enc InSamples SamplesToDo"
  have m: "array_sizes ?mid" using sz by (rule mid_state_sizes)
  have k: "encode_keep ?mid SamplesToDo = Some (kept_state ?mid SamplesToDo)"
    using m n by (intro encode_keep_eq) (simp_all add: array_sizes_def)
  have "encode_mix lit PShift enc LeftOut RightOut InSamples SamplesToDo
      = Some (?mid,
          put LeftOut 0 SamplesToDo
            (\<lambda>i. (mid_S lit enc InSamples SamplesToDo ! i
                    + mid_D lit PShift enc InSamples SamplesToDo ! i) * lit 0.5),
          put RightOut 0 SamplesToDo
            (\<lambda>i. (mid_S lit enc InSamples SamplesToDo ! i
                    - mid_D lit PShift enc InSamples SamplesToDo ! i) * lit 0.5))"
    by (rule encode_mix_eq [OF sz lo ro ins ps n])
  moreover have "encode lit PShift enc LeftOut RightOut InSamples SamplesToDo
      = Some (kept_state ?mid SamplesToDo,
          put LeftOut 0 SamplesToDo
            (\<lambda>i. (mid_S lit enc InSamples SamplesToDo ! i
                    + mid_D lit PShift enc InSamples SamplesToDo ! i) * lit 0.5),
          put RightOut 0 SamplesToDo
            (\<lambda>i. (mid_S lit enc InSamples SamplesToDo ! i
                    - mid_D lit PShift enc InSamples SamplesToDo ! i) * lit 0.5))"
    by (rule encode_eq [OF sz lo ro ins ps n])
  moreover have "array_sizes (kept_state ?mid SamplesToDo)" using m by (rule kept_state_sizes)
  moreover have "\<forall>k < sFilterDelay.
      mS (kept_state ?mid SamplesToDo) ! k = mS ?mid ! (SamplesToDo + k)
      \<and> mD (kept_state ?mid SamplesToDo) ! k = mD ?mid ! (SamplesToDo + k)"
    using kept_state_nth [OF m n] by simp
  ultimately show ?thesis
    using e kept_window [OF sz n, of lit PShift InSamples] by blast
qed

theorem encode_keeps_history_witness:
  "\<exists>enc mid enc' left right.
     encode_calls (\<lambda>x. x) example_taps UhjEncoder_init
       [(replicate BufferLineSize 0, replicate BufferLineSize 0, silence, sFilterDelay)] = Some enc
     \<and> encode_mix (\<lambda>x. x) example_taps enc (replicate BufferLineSize 0)
         (replicate BufferLineSize 0) impulse 1 = Some (mid, left, right)
     \<and> encode (\<lambda>x. x) example_taps enc (replicate BufferLineSize 0)
         (replicate BufferLineSize 0) impulse 1 = Some (enc', left, right)
     \<and> array_sizes enc'
     \<and> mS enc' ! (sFilterDelay - 1) = mS mid ! sFilterDelay
     \<and> mD enc' ! (sFilterDelay - 1) = mD mid ! sFilterDelay"
proof -
  have v: "\<forall>c \<in> set [(replicate BufferLineSize (0::real), replicate BufferLineSize (0::real),
                    silence, sFilterDelay)]. valid_call c"
    by (simp add: valid_call_def silence_lines sFilterDelay_def BufferLineSize_def)
  have l: "length (replicate BufferLineSize (0::real)) = BufferLineSize" by simp
  have p: "length example_taps \<le> sFilterDelay * 2" by (simp add: example_taps_length)
  from encode_keeps_history [OF init_sizes v l l impulse_lines p one_le, of "\<lambda>x. x"]
  obtain enc mid enc' left right where
    c: "encode_calls (\<lambda>x. x) example_taps UhjEncoder_init
       [(replicate BufferLineSize 0, replicate BufferLineSize 0, silence, sFilterDelay)] = Some enc"
    and m: "encode_mix (\<lambda>x. x) example_taps enc (replicate BufferLineSize 0)
         (replicate BufferLineSize 0) impulse 1 = Some (mid, left, right)"
    and e: "encode (\<lambda>x. x) example_taps enc (replicate BufferLineSize 0)
         (replicate BufferLineSize 0) impulse 1 = Some (enc', left, right)"
    and s: "array_sizes enc'"
    and k: "\<forall>k < sFilterDelay. mS enc' ! k = mS mid ! (1 + k) \<and> mD enc' ! k = mD mid ! (1 + k)"
    by blast
  have "sFilterDelay - 1 < sFilterDelay" "1 + (sFilterDelay - 1) = sFilterDelay"
    by (simp_all add: sFilterDelay_def)
  with k have "mS enc' ! (sFilterDelay - 1) = mS mid ! sFilterDelay"
    "mD enc' ! (sFilterDelay - 1) = mD mid ! sFilterDelay"
    by (metis)+
  with c m e s show ?thesis by blast
qed

subsection \<open>UHJ encoder: a sequence of blocks\<close>

lemma fir_sum_cong:
  assumes "\<And>k. k < length h \<Longrightarrow> src ! (i + k) = src' ! (i' + k)"
  shows "fir_sum h src i = fir_sum h src' i'"
proof -
  have "m \<le> length h \<Longrightarrow>
        fold (\<lambda>k ret. ret + src ! (i + k) * h ! k) [0..<m] z
        = fold (\<lambda>k ret. ret + src' ! (i' + k) * h ! k) [0..<m] z" for m z
    by (induction m) (simp_all add: assms)
  then show ?thesis by (simp add: fir_sum_def)
qed

lemma drop_append_nth:
  assumes "n \<le> length xs"
  shows "(drop n xs @ ys) ! j = (xs @ ys) ! (n + j)"
proof -
  have "drop n xs @ ys = drop n (xs @ ys)" using assms by simp
  moreover have "n \<le> length (xs @ ys)" using assms by simp
  ultimately show ?thesis by (simp only: nth_drop)
qed

lemma kept_history:
  assumes sz: "array_sizes enc" and n: "n \<le> BufferLineSize"
  shows "mWXHistory (kept_state (mid_state lit PShift enc InSamples n) n)
           = drop n (mWXHistory enc
              @ map (\<lambda>i. - lit 0.3420201 * InSamples ! 0 ! i + lit 0.5098604 * InSamples ! 1 ! i)
                  [0..<n])"
proof -
  let ?H = "mWXHistory (kept_state (mid_state lit PShift enc InSamples n) n)"
  let ?T = "map (\<lambda>i. - lit 0.3420201 * InSamples ! 0 ! i + lit 0.5098604 * InSamples ! 1 ! i) [0..<n]"
  have lh: "length (mWXHistory enc) = sFilterDelay * 2 - 1"
    using sz by (simp add: array_sizes_def)
  have lH: "length ?H = sFilterDelay * 2 - 1"
    by (simp add: kept_state_def mid_state_def lh)
  have "take (sFilterDelay * 2 - 1) ?H = drop n (mWXHistory enc @ ?T)"
  proof (rule take_eq_drop_window)
    show "sFilterDelay * 2 - 1 \<le> length ?H" using lH by simp
    show "length (mWXHistory enc) = sFilterDelay * 2 - 1" by (rule lh)
    show "length ?T = n" by simp
  next
    fix k assume k: "k < sFilterDelay * 2 - 1"
    have "?H ! k = mid_Temp lit enc InSamples n ! (n + k)"
      using k by (simp add: kept_state_def mid_state_def nth_put lh)
    also have "\<dots> = (mWXHistory enc @ ?T) ! (n + k)"
      using k n sz
      by (auto simp add: mid_Temp_def nth_put nth_append array_sizes_def
          BufferLineSize_def sFilterDelay_def)
    finally show "?H ! k = (mWXHistory enc @ ?T) ! (n + k)" .
  qed
  then show ?thesis using lH by simp
qed

lemma mid_Temp_window:
  assumes sz: "array_sizes enc" and n: "n \<le> BufferLineSize" and j: "j < sFilterDelay * 2 - 1 + n"
  shows "mid_Temp lit enc InSamples n ! j
         = (mWXHistory enc
            @ map (\<lambda>i. - lit 0.3420201 * InSamples ! 0 ! i + lit 0.5098604 * InSamples ! 1 ! i)
                [0..<n] @ rest) ! j"
  using assms
  by (auto simp add: mid_Temp_def nth_put nth_append array_sizes_def
      BufferLineSize_def sFilterDelay_def)

lemma S_stream_Cons:
  "S_stream lit (b # bs)
     = map (\<lambda>i. lit 0.9396926 * fst b ! 0 ! i + lit 0.1855740 * fst b ! 1 ! i) [0..<snd b]
       @ S_stream lit bs"
  by (simp add: S_stream_def)

lemma D_stream_Cons:
  "D_stream lit (b # bs) = map (\<lambda>i. lit 0.6554516 * fst b ! 2 ! i) [0..<snd b] @ D_stream lit bs"
  by (simp add: D_stream_def)

lemma T_stream_Cons:
  "T_stream lit (b # bs)
     = map (\<lambda>i. - lit 0.3420201 * fst b ! 0 ! i + lit 0.5098604 * fst b ! 1 ! i) [0..<snd b]
       @ T_stream lit bs"
  by (simp add: T_stream_def)

lemmas streams_Cons = S_stream_Cons D_stream_Cons T_stream_Cons

lemma D_stream_length: "length (D_stream lit bs) = length (S_stream lit bs)"
  by (induction bs) (simp_all add: streams_Cons, simp_all add: S_stream_def D_stream_def)

lemma T_stream_length: "length (T_stream lit bs) = length (S_stream lit bs)"
  by (induction bs) (simp_all add: streams_Cons, simp_all add: S_stream_def T_stream_def)

lemma stream_out_shift:
  assumes sz: "array_sizes enc" and n: "snd b \<le> BufferLineSize"
  shows "stream_out lit PShift (kept_state (mid_state lit PShift enc (fst b) (snd b)) (snd b)) bs g
         = stream_out lit PShift enc (b # bs) (snd b + g)"
proof -
  let ?n = "snd b"
  let ?enc1 = "kept_state (mid_state lit PShift enc (fst b) ?n) ?n"
  let ?Sb = "map (\<lambda>i. lit 0.9396926 * fst b ! 0 ! i + lit 0.1855740 * fst b ! 1 ! i) [0..<?n]"
  let ?Db = "map (\<lambda>i. lit 0.6554516 * fst b ! 2 ! i) [0..<?n]"
  let ?Tb = "map (\<lambda>i. - lit 0.3420201 * fst b ! 0 ! i + lit 0.5098604 * fst b ! 1 ! i) [0..<?n]"
  have s: "(take sFilterDelay (mS ?enc1) @ S_stream lit bs) ! g
         = (take sFilterDelay (mS enc) @ S_stream lit (b # bs)) ! (?n + g)"
    unfolding kept_window(1) [OF sz n] streams_Cons
    using drop_append_nth [of ?n "take sFilterDelay (mS enc) @ ?Sb" "S_stream lit bs" g]
    by simp
  have d: "(take sFilterDelay (mD ?enc1) @ D_stream lit bs) ! g
         = (take sFilterDelay (mD enc) @ D_stream lit (b # bs)) ! (?n + g)"
    unfolding kept_window(2) [OF sz n] streams_Cons
    using drop_append_nth [of ?n "take sFilterDelay (mD enc) @ ?Db" "D_stream lit bs" g]
    by simp
  have t: "fir_sum PShift (mWXHistory ?enc1 @ T_stream lit bs) g
         = fir_sum PShift (mWXHistory enc @ T_stream lit (b # bs)) (?n + g)"
  proof (rule fir_sum_cong)
    fix k
    show "(mWXHistory ?enc1 @ T_stream lit bs) ! (g + k)
        = (mWXHistory enc @ T_stream lit (b # bs)) ! (?n + g + k)"
      unfolding kept_history [OF sz n] streams_Cons
      using drop_append_nth [of ?n "mWXHistory enc @ ?Tb" "T_stream lit bs" "g + k"]
      by (simp add: add.assoc)
  qed
  show ?thesis
    unfolding stream_out_def Let_def s d t ..
qed

lemma stream_out_first:
  assumes sz: "array_sizes enc" and n: "snd b \<le> BufferLineSize" and g: "g < snd b"
    and ps: "length PShift \<le> sFilterDelay * 2"
  shows "stream_out lit PShift enc (b # bs) g
         = ((mid_S lit enc (fst b) (snd b) ! g + mid_D lit PShift enc (fst b) (snd b) ! g) * lit 0.5,
            (mid_S lit enc (fst b) (snd b) ! g - mid_D lit PShift enc (fst b) (snd b) ! g) * lit 0.5)"
proof -
  let ?n = "snd b"
  have gf: "g < sFilterDelay" using g n by (simp add: BufferLineSize_def sFilterDelay_def)
  have ls: "length (mS enc) = BufferLineSize + sFilterDelay"
    "length (mD enc) = BufferLineSize + sFilterDelay"
    using sz by (simp_all add: array_sizes_def)
  have s: "(take sFilterDelay (mS enc) @ S_stream lit (b # bs)) ! g = mid_S lit enc (fst b) ?n ! g"
    using gf ls mid_S_nth(2) [OF sz n gf, of lit "fst b"] by (simp add: nth_append)
  have d0: "(take sFilterDelay (mD enc) @ D_stream lit (b # bs)) ! g = mD enc ! g"
    using gf ls by (simp add: nth_append)
  have t: "fir_sum PShift (mid_Temp lit enc (fst b) ?n) g
         = fir_sum PShift (mWXHistory enc @ T_stream lit (b # bs)) g"
  proof (rule fir_sum_cong)
    fix k assume "k < length PShift"
    then have "g + k < sFilterDelay * 2 - 1 + ?n" using g ps by (simp add: sFilterDelay_def)
    then show "mid_Temp lit enc (fst b) ?n ! (g + k)
        = (mWXHistory enc @ T_stream lit (b # bs)) ! (g + k)"
      unfolding streams_Cons by (rule mid_Temp_window [OF sz n])
  qed
  have d: "(take sFilterDelay (mD enc) @ D_stream lit (b # bs)) ! g
           + fir_sum PShift (mWXHistory enc @ T_stream lit (b # bs)) g
         = mid_D lit PShift enc (fst b) ?n ! g"
    unfolding d0 t [symmetric] by (rule mid_D_nth(2) [OF sz n g, symmetric])
  show ?thesis
    unfolding stream_out_def Let_def s d ..
qed

lemma encode_stream_eq:
  assumes ps: "length PShift \<le> sFilterDelay * 2"
  shows "array_sizes enc \<Longrightarrow> length LeftOut = BufferLineSize \<Longrightarrow> length RightOut = BufferLineSize
    \<Longrightarrow> \<forall>b \<in> set bs. valid_block b
    \<Longrightarrow> \<exists>enc' lefts rights.
          encode_stream lit PShift enc LeftOut RightOut bs = Some (enc', lefts, rights)
        \<and> array_sizes enc'
        \<and> length lefts = length (S_stream lit bs) \<and> length rights = length (S_stream lit bs)
        \<and> (\<forall>g < length (S_stream lit bs).
              (lefts ! g, rights ! g) = stream_out lit PShift enc bs g)"
proof (induction bs arbitrary: enc LeftOut RightOut)
  case Nil
  then show ?case by (simp add: S_stream_def)
next
  case (Cons b bs)
  let ?n = "snd b"
  let ?S = "mid_S lit enc (fst b) ?n"
  let ?D = "mid_D lit PShift enc (fst b) ?n"
  let ?l = "put LeftOut 0 ?n (\<lambda>i. (?S ! i + ?D ! i) * lit 0.5)"
  let ?r = "put RightOut 0 ?n (\<lambda>i. (?S ! i - ?D ! i) * lit 0.5)"
  let ?enc1 = "kept_state (mid_state lit PShift enc (fst b) ?n) ?n"
  have vb: "buffer_lines (fst b)" "?n \<le> BufferLineSize"
    using Cons.prems(4) by (simp_all add: valid_block_def)
  have e: "encode lit PShift enc LeftOut RightOut (fst b) ?n = Some (?enc1, ?l, ?r)"
    by (rule encode_eq [OF Cons.prems(1,2,3) vb(1) ps vb(2)])
  have s1: "array_sizes ?enc1"
    by (intro kept_state_sizes mid_state_sizes Cons.prems(1))
  have ll: "length ?l = BufferLineSize" "length ?r = BufferLineSize"
    using Cons.prems(2,3) by simp_all
  have "\<forall>b \<in> set bs. valid_block b" using Cons.prems(4) by simp
  from Cons.IH [OF s1 ll this]
  obtain enc2 lefts rights where
    r: "encode_stream lit PShift ?enc1 ?l ?r bs = Some (enc2, lefts, rights)"
    and s2: "array_sizes enc2"
    and len: "length lefts = length (S_stream lit bs)" "length rights = length (S_stream lit bs)"
    and out: "\<forall>g < length (S_stream lit bs).
                (lefts ! g, rights ! g) = stream_out lit PShift ?enc1 bs g"
    by blast
  have tl: "length (take ?n ?l) = ?n" "length (take ?n ?r) = ?n"
    using ll vb(2) by simp_all
  have res: "encode_stream lit PShift enc LeftOut RightOut (b # bs)
        = Some (enc2, take ?n ?l @ lefts, take ?n ?r @ rights)"
    unfolding encode_stream.simps e using r by simp
  have lS: "length (S_stream lit (b # bs)) = ?n + length (S_stream lit bs)"
    by (simp add: streams_Cons)
  have "((take ?n ?l @ lefts) ! g, (take ?n ?r @ rights) ! g)
        = stream_out lit PShift enc (b # bs) g"
    if g: "g < ?n + length (S_stream lit bs)" for g
  proof (cases "g < ?n")
    case True
    have "(take ?n ?l @ lefts) ! g = ?l ! g" "(take ?n ?r @ rights) ! g = ?r ! g"
      using True tl by (simp_all add: nth_append)
    moreover have "?l ! g = (?S ! g + ?D ! g) * lit 0.5" "?r ! g = (?S ! g - ?D ! g) * lit 0.5"
      using True vb(2) Cons.prems(2,3) by (simp_all add: nth_put)
    ultimately show ?thesis
      unfolding stream_out_first [OF Cons.prems(1) vb(2) True ps] by simp
  next
    case False
    then have g': "g - ?n < length (S_stream lit bs)" "?n + (g - ?n) = g" using g by simp_all
    have "(take ?n ?l @ lefts) ! g = lefts ! (g - ?n)" "(take ?n ?r @ rights) ! g = rights ! (g - ?n)"
      using False tl by (simp_all add: nth_append)
    moreover have "(lefts ! (g - ?n), rights ! (g - ?n)) = stream_out lit PShift ?enc1 bs (g - ?n)"
      using out g'(1) by blast
    moreover have "stream_out lit PShift ?enc1 bs (g - ?n) = stream_out lit PShift enc (b # bs) g"
      using stream_out_shift [OF Cons.prems(1) vb(2), of lit PShift bs "g - ?n"] g'(2) by simp
    ultimately show ?thesis by simp
  qed
  then show ?case
    using res s2 len tl lS by simp
qed

lemma stream_in_Cons: "stream_in c (b # bs) = take (snd b) (fst b ! c) @ stream_in c bs"
  by (simp add: stream_in_def)

lemma block_stream_nth:
  assumes "\<forall>b \<in> set bs. valid_block b"
    and "g < length (concat (map (\<lambda>b. map (\<lambda>i. F (fst b ! 0 ! i) (fst b ! 1 ! i) (fst b ! 2 ! i))
                                        [0..<snd b]) bs))"
  shows "concat (map (\<lambda>b. map (\<lambda>i. F (fst b ! 0 ! i) (fst b ! 1 ! i) (fst b ! 2 ! i)) [0..<snd b]) bs) ! g
         = F (stream_in 0 bs ! g) (stream_in 1 bs ! g) (stream_in 2 bs ! g)"
  using assms
proof (induction bs arbitrary: g)
  case Nil
  then show ?case by simp
next
  case (Cons b bs)
  have vb: "buffer_lines (fst b)" "snd b \<le> BufferLineSize"
    using Cons.prems(1) by (simp_all add: valid_block_def)
  have l: "length (fst b ! 0) = BufferLineSize" "length (fst b ! 1) = BufferLineSize"
    "length (fst b ! 2) = BufferLineSize"
    using buffer_lines_nth [OF vb(1), of 0] buffer_lines_nth [OF vb(1), of 1]
      buffer_lines_nth [OF vb(1), of 2] by simp_all
  show ?case
  proof (cases "g < snd b")
    case True
    then show ?thesis
      using l vb(2) by (simp add: stream_in_Cons nth_append)
  next
    case False
    then have "g - snd b < length (concat (map (\<lambda>b. map (\<lambda>i. F (fst b ! 0 ! i) (fst b ! 1 ! i)
                  (fst b ! 2 ! i)) [0..<snd b]) bs))"
      using Cons.prems(2) by simp
    with Cons.IH [of "g - snd b"] Cons.prems(1) False l vb(2) show ?thesis
      by (simp add: stream_in_Cons nth_append)
  qed
qed

lemma stream_in_length:
  assumes "\<forall>b \<in> set bs. valid_block b" "c < 3"
  shows "length (stream_in c bs) = length (S_stream lit bs)"
  using assms(1)
proof (induction bs)
  case Nil
  then show ?case by (simp add: stream_in_def S_stream_def)
next
  case (Cons b bs)
  have vb: "buffer_lines (fst b)" "snd b \<le> BufferLineSize"
    using Cons.prems by (simp_all add: valid_block_def)
  have "length (take (snd b) (fst b ! c)) = snd b"
    using buffer_lines_nth [OF vb(1) assms(2)] vb(2) by simp
  with Cons show ?case by (simp add: stream_in_Cons S_stream_Cons)
qed

lemma S_stream_nth:
  assumes "\<forall>b \<in> set bs. valid_block b" "g < length (S_stream lit bs)"
  shows "S_stream lit bs ! g = lit 0.9396926 * stream_in 0 bs ! g + lit 0.1855740 * stream_in 1 bs ! g"
  using block_stream_nth [OF assms(1), of g "\<lambda>w x y. lit 0.9396926 * w + lit 0.1855740 * x"] assms(2)
  by (simp add: S_stream_def)

lemma D_stream_nth:
  assumes "\<forall>b \<in> set bs. valid_block b" "g < length (S_stream lit bs)"
  shows "D_stream lit bs ! g = lit 0.6554516 * stream_in 2 bs ! g"
  using block_stream_nth [OF assms(1), of g "\<lambda>w x y. lit 0.6554516 * y"] assms(2)
    D_stream_length [of lit bs]
  by (simp add: D_stream_def)

lemma T_stream_nth:
  assumes "\<forall>b \<in> set bs. valid_block b" "g < length (S_stream lit bs)"
  shows "T_stream lit bs ! g
         = - lit 0.3420201 * stream_in 0 bs ! g + lit 0.5098604 * stream_in 1 bs ! g"
  using block_stream_nth [OF assms(1), of g "\<lambda>w x y. - lit 0.3420201 * w + lit 0.5098604 * x"]
    assms(2) T_stream_length [of lit bs]
  by (simp add: T_stream_def)

lemma impulse_stream_out:
  assumes ps: "length PShift \<le> sFilterDelay * 2"
    and vb: "\<forall>b \<in> set bs. valid_block b"
    and w: "stream_in 0 bs = replicate sFilterDelay 0 @ [1] @ replicate sFilterDelay 0"
    and x: "stream_in 1 bs = replicate (sFilterDelay * 2 + 1) 0"
    and y: "stream_in 2 bs = replicate (sFilterDelay * 2 + 1) 0"
  shows "stream_out (\<lambda>x. x) PShift UhjEncoder_init bs (sFilterDelay * 2)
         = ((0.9396926 + (if sFilterDelay - 1 < length PShift
                          then - 0.3420201 * PShift ! (sFilterDelay - 1) else 0)) / 2,
            (0.9396926 - (if sFilterDelay - 1 < length PShift
                          then - 0.3420201 * PShift ! (sFilterDelay - 1) else 0)) / 2)"
proof -
  let ?id = "\<lambda>x::real. x"
  have len: "length (S_stream ?id bs) = sFilterDelay * 2 + 1"
    using stream_in_length [OF vb, of 1 ?id] x by simp
  have wn: "stream_in 0 bs ! j = (if j = sFilterDelay then 1 else 0)" if "j < sFilterDelay * 2 + 1" for j
    using that unfolding w by (auto simp add: nth_append nth_Cons split: nat.splits)
  have xn: "stream_in 1 bs ! j = 0" "stream_in 2 bs ! j = 0" if "j < sFilterDelay * 2 + 1" for j
    by (simp_all only: x y nth_replicate that)
  have fd: "sFilterDelay < sFilterDelay * 2 + 1" by simp
  have s: "(take sFilterDelay (mS UhjEncoder_init) @ S_stream ?id bs) ! (sFilterDelay * 2) = 0.9396926"
  proof -
    have "(take sFilterDelay (mS UhjEncoder_init) @ S_stream ?id bs) ! (sFilterDelay * 2)
          = S_stream ?id bs ! sFilterDelay"
      by (simp add: init_fields nth_append)
    also have "\<dots> = 0.9396926 * stream_in 0 bs ! sFilterDelay
                    + 0.1855740 * stream_in 1 bs ! sFilterDelay"
      using len by (intro S_stream_nth vb) simp
    finally show ?thesis unfolding wn [OF fd] xn(1) [OF fd] by simp
  qed
  have d: "(take sFilterDelay (mD UhjEncoder_init) @ D_stream ?id bs) ! (sFilterDelay * 2) = 0"
  proof -
    have "(take sFilterDelay (mD UhjEncoder_init) @ D_stream ?id bs) ! (sFilterDelay * 2)
          = D_stream ?id bs ! sFilterDelay"
      by (simp add: init_fields nth_append)
    also have "\<dots> = 0.6554516 * stream_in 2 bs ! sFilterDelay"
      using len by (intro D_stream_nth vb) simp
    finally show ?thesis unfolding xn(2) [OF fd] by simp
  qed
  have tk: "(mWXHistory UhjEncoder_init @ T_stream ?id bs) ! (sFilterDelay * 2 + k)
            = (if k = sFilterDelay - 1 then - 0.3420201 else 0)"
    if k: "k < sFilterDelay * 2" for k
  proof -
    have k1: "k + 1 < sFilterDelay * 2 + 1" using k by simp
    have "(mWXHistory UhjEncoder_init @ T_stream ?id bs) ! (sFilterDelay * 2 + k)
          = T_stream ?id bs ! (k + 1)"
      by (simp add: init_fields nth_append sFilterDelay_def)
    also have "\<dots> = - 0.3420201 * stream_in 0 bs ! (k + 1) + 0.5098604 * stream_in 1 bs ! (k + 1)"
      using len k1 by (intro T_stream_nth vb) simp
    also have "\<dots> = (if k + 1 = sFilterDelay then - 0.3420201 else 0)"
      unfolding wn [OF k1] xn(1) [OF k1] by simp
    also have "\<dots> = (if k = sFilterDelay - 1 then - 0.3420201 else 0)"
      by (auto simp add: sFilterDelay_def)
    finally show ?thesis .
  qed
  have t: "fir_sum PShift (mWXHistory UhjEncoder_init @ T_stream ?id bs) (sFilterDelay * 2)
         = (if sFilterDelay - 1 < length PShift
            then - 0.3420201 * PShift ! (sFilterDelay - 1) else 0)"
  proof -
    let ?src = "mWXHistory UhjEncoder_init @ T_stream ?id bs"
    have "(\<Sum>k<length PShift. ?src ! (sFilterDelay * 2 + k) * PShift ! k)
        = (\<Sum>k<length PShift. if k = sFilterDelay - 1 then - 0.3420201 * PShift ! k else 0)"
    proof (rule sum.cong)
      fix k assume "k \<in> {..<length PShift}"
      then have "k < sFilterDelay * 2" using ps by simp
      then have "?src ! (sFilterDelay * 2 + k) = (if k = sFilterDelay - 1 then - 0.3420201 else 0)"
        by (rule tk)
      then show "?src ! (sFilterDelay * 2 + k) * PShift ! k
          = (if k = sFilterDelay - 1 then - 0.3420201 * PShift ! k else 0)"
        by (simp only: if_distrib [of "\<lambda>x. x * PShift ! k"] mult_zero_left)
    qed simp
    also have "\<dots> = (if sFilterDelay - 1 < length PShift
                       then - 0.3420201 * PShift ! (sFilterDelay - 1) else 0)"
      by simp
    finally show ?thesis by (simp add: fir_sum_real)
  qed
  show ?thesis
    unfolding stream_out_def Let_def s d t by simp
qed

lemma impulse_blocks_valid: "\<forall>b \<in> set impulse_blocks. valid_block b"
  by (simp add: impulse_blocks_def valid_block_def silence_lines impulse_lines BufferLineSize_def
      sFilterDelay_def)

lemma impulse_blocks_streams:
  "stream_in 0 impulse_blocks = replicate sFilterDelay 0 @ [1] @ replicate sFilterDelay 0"
  "stream_in 1 impulse_blocks = replicate (sFilterDelay * 2 + 1) 0"
  "stream_in 2 impulse_blocks = replicate (sFilterDelay * 2 + 1) 0"
proof -
  have n: "sFilterDelay * 2 + 1 = sFilterDelay + (Suc 0 + sFilterDelay)"
    by simp
  have o: "[0::real] = replicate (Suc 0) 0"
    by simp
  have b: "replicate sFilterDelay (0::real) @ [0] @ replicate sFilterDelay 0
           = replicate (sFilterDelay * 2 + 1) 0"
    unfolding n o by (simp only: replicate_add)
  have t: "take 1 (replicate BufferLineSize (0::real)) = [0]"
    by (simp add: BufferLineSize_def take_Suc_conv_app_nth)
  have i: "take 1 (1 # replicate (BufferLineSize - 1) (0::real)) = [1]"
    by simp
  have z: "take sFilterDelay (replicate BufferLineSize (0::real)) = replicate sFilterDelay 0"
    by (simp add: BufferLineSize_def sFilterDelay_def)
  have e: "stream_in c impulse_blocks
           = take sFilterDelay (silence ! c) @ take 1 (impulse ! c)
             @ take sFilterDelay (silence ! c)" for c
    by (simp add: stream_in_def impulse_blocks_def)
  have c0: "silence ! 0 = replicate BufferLineSize 0"
    "impulse ! 0 = 1 # replicate (BufferLineSize - 1) 0"
    and c1: "silence ! 1 = replicate BufferLineSize 0" "impulse ! 1 = replicate BufferLineSize 0"
    and c2: "silence ! 2 = replicate BufferLineSize 0" "impulse ! 2 = replicate BufferLineSize 0"
    by (simp_all add: silence_def impulse_def)
  show "stream_in 0 impulse_blocks = replicate sFilterDelay 0 @ [1] @ replicate sFilterDelay 0"
    unfolding e c0 i z ..
  show "stream_in 1 impulse_blocks = replicate (sFilterDelay * 2 + 1) 0"
    unfolding e c1 t z by (rule b)
  show "stream_in 2 impulse_blocks = replicate (sFilterDelay * 2 + 1) 0"
    unfolding e c2 t z by (rule b)
qed

subsection \<open>UHJ encoder: the combination\<close>

lemma fir_sum_fun:
  assumes "\<And>k. k < length h \<Longrightarrow> src ! (i + k) = f (i + k)"
  shows "fir_sum h src i = fold (\<lambda>k ret. ret + f (i + k) * h ! k) [0..<length h] 0"
proof -
  have "m \<le> length h \<Longrightarrow>
        fold (\<lambda>k ret. ret + src ! (i + k) * h ! k) [0..<m] z
        = fold (\<lambda>k ret. ret + f (i + k) * h ! k) [0..<m] z" for m z
    by (induction m) (simp_all add: assms)
  then show ?thesis by (simp add: fir_sum_def)
qed

lemma delayed_S_eq:
  assumes vb: "\<forall>b \<in> set bs. valid_block b" and sz: "array_sizes enc"
    and g: "g < length (S_stream lit bs)"
  shows "(take sFilterDelay (mS enc) @ S_stream lit bs) ! g = delayed_S lit enc bs g"
proof -
  have l: "length (take sFilterDelay (mS enc)) = sFilterDelay"
    using sz by (simp add: array_sizes_def)
  show ?thesis
  proof (cases "g < sFilterDelay")
    case True
    then show ?thesis using l by (simp add: delayed_S_def nth_append)
  next
    case False
    then have "g - sFilterDelay < length (S_stream lit bs)" using g by simp
    from S_stream_nth [OF vb this] False l show ?thesis
      by (simp add: delayed_S_def nth_append)
  qed
qed

lemma delayed_D_eq:
  assumes ps: "length PShift \<le> sFilterDelay * 2"
    and vb: "\<forall>b \<in> set bs. valid_block b" and sz: "array_sizes enc"
    and g: "g < length (S_stream lit bs)"
  shows "(take sFilterDelay (mD enc) @ D_stream lit bs) ! g
           + fir_sum PShift (mWXHistory enc @ T_stream lit bs) g
         = delayed_D lit PShift enc bs g"
proof -
  have l: "length (take sFilterDelay (mD enc)) = sFilterDelay"
    and lh: "length (mWXHistory enc) = sFilterDelay * 2 - 1"
    using sz by (simp_all add: array_sizes_def)
  have d: "(take sFilterDelay (mD enc) @ D_stream lit bs) ! g
           = (if g < sFilterDelay then mD enc ! g
              else lit 0.6554516 * stream_in 2 bs ! (g - sFilterDelay))"
  proof (cases "g < sFilterDelay")
    case True
    then show ?thesis using l by (simp add: nth_append)
  next
    case False
    then have "g - sFilterDelay < length (S_stream lit bs)" using g by simp
    from D_stream_nth [OF vb this] False l show ?thesis
      by (simp add: nth_append)
  qed
  have t: "(mWXHistory enc @ T_stream lit bs) ! (g + k) = filter_input lit enc bs (g + k)"
    if k: "k < length PShift" for k
  proof (cases "g + k < sFilterDelay * 2 - 1")
    case True
    then show ?thesis using lh by (simp add: filter_input_def nth_append)
  next
    case False
    have "g + k - (sFilterDelay * 2 - 1) < length (S_stream lit bs)"
      using g k ps by (simp add: sFilterDelay_def)
    from T_stream_nth [OF vb this] False lh show ?thesis
      by (simp add: filter_input_def nth_append)
  qed
  have f: "fir_sum PShift (mWXHistory enc @ T_stream lit bs) g
           = fold (\<lambda>k ret. ret + filter_input lit enc bs (g + k) * PShift ! k)
               [0..<length PShift] 0"
    by (rule fir_sum_fun) (rule t)
  show ?thesis
    unfolding delayed_D_def d f ..
qed

lemma fresh_call_sample:
  assumes ps: "length PShift \<le> sFilterDelay * 2"
    and lo: "length LeftOut = BufferLineSize" and ro: "length RightOut = BufferLineSize"
  shows "encode_sample (\<lambda>x. x) PShift UhjEncoder_init LeftOut RightOut impulse BufferLineSize 0
         = Some (fir_sum PShift (mid_Temp (\<lambda>x. x) UhjEncoder_init impulse BufferLineSize) 0 / 2,
                 - fir_sum PShift (mid_Temp (\<lambda>x. x) UhjEncoder_init impulse BufferLineSize) 0 / 2)"
proof -
  let ?S = "mid_S (\<lambda>x. x) UhjEncoder_init impulse BufferLineSize"
  let ?D = "mid_D (\<lambda>x. x) PShift UhjEncoder_init impulse BufferLineSize"
  have n: "BufferLineSize \<le> BufferLineSize" by simp
  have s: "?S ! 0 = 0"
    using mid_S_nth(2) [OF init_sizes n, of 0 "\<lambda>x. x" impulse]
    by (simp add: init_fields sFilterDelay_def BufferLineSize_def)
  have d: "?D ! 0 = fir_sum PShift (mid_Temp (\<lambda>x. x) UhjEncoder_init impulse BufferLineSize) 0"
    using mid_D_nth(2) [OF init_sizes n, of 0 "\<lambda>x. x" PShift impulse]
    by (simp add: init_fields sFilterDelay_def BufferLineSize_def)
  have l: "put LeftOut 0 BufferLineSize (\<lambda>i. (?S ! i + ?D ! i) * 0.5) ! 0 = (?S ! 0 + ?D ! 0) * 0.5"
    using lo by (simp add: nth_put BufferLineSize_def)
  have r: "put RightOut 0 BufferLineSize (\<lambda>i. (?S ! i - ?D ! i) * 0.5) ! 0 = (?S ! 0 - ?D ! 0) * 0.5"
    using ro by (simp add: nth_put BufferLineSize_def)
  show ?thesis
    unfolding encode_sample_def encode_eq [OF init_sizes lo ro impulse_lines ps n]
    using l r s d by simp
qed

text \<open>
  C1, as stated: in every call, with \<open>S[i] = 0.9396926 * W[i] + 0.1855740 * X[i]\<close> and \<open>D[i]\<close>
  the sum of \<open>0.6554516 * Y[i]\<close> and the filtered value, the outputs would be
  \<open>Left[i] = (S[i] + D[i]) / 2\<close> and \<open>Right[i] = (S[i] - D[i]) / 2\<close>. It fails: the loops that
  write the outputs read \<open>mS[i]\<close> and \<open>mD[i]\<close>, the samples that were delayed by
  \<open>sFilterDelay\<close> positions, and the mix of the call is written at \<open>mS[sFilterDelay + i]\<close>. For
  a fresh encoder and a first call of \<open>BufferLineSize\<close> frames, all zero but \<open>W[0] = 1\<close>, the
  first output pair is \<open>(f / 2, - f / 2)\<close>, with \<open>f\<close> the filter's output, and not
  \<open>((0.9396926 + f) / 2, (0.9396926 - f) / 2)\<close>, whatever the coefficient table is.
\<close>

theorem encode_combination_counterexample:
  "encode_sample (\<lambda>x. x) example_taps UhjEncoder_init (replicate BufferLineSize 0)
     (replicate BufferLineSize 0) impulse BufferLineSize 0
   \<noteq> Some (claimed_sample example_taps UhjEncoder_init impulse BufferLineSize 0)"
proof -
  have p: "length example_taps \<le> sFilterDelay * 2" by (simp add: example_taps_length)
  have l: "length (replicate BufferLineSize (0::real)) = BufferLineSize" by simp
  have c: "claimed_S impulse 0 = 0.9396926"
    by (simp add: claimed_S_def impulse_nth)
  show ?thesis
    unfolding fresh_call_sample [OF p l l] claimed_sample_def claimed_D_def c
    by (simp add: impulse_nth)
qed

text \<open>
  C1, amended: for every sequence of calls with \<open>SamplesToDo \<le> BufferLineSize\<close> on an encoder
  whose arrays have their declared sizes, every call returns, and at every position \<open>g\<close> of the
  sequence the outputs are \<open>Left = (S + D) * 0.5\<close> and \<open>Right = (S - D) * 0.5\<close>, where \<open>S\<close> and
  \<open>D\<close> are the delayed signals: \<open>S\<close> is \<open>0.9396926 * W + 0.1855740 * X\<close> of the input
  \<open>sFilterDelay\<close> samples earlier, \<open>D\<close> is \<open>0.6554516 * Y\<close> of the input \<open>sFilterDelay\<close> samples
  earlier plus the filter's output at \<open>g\<close> over the retained history followed by
  \<open>-0.3420201 * W + 0.5098604 * X\<close>; for the first \<open>sFilterDelay\<close> positions the delayed samples
  are those the encoder retained (zero for a fresh one). This holds in every arithmetic of the
  samples, with exactly these literals.
\<close>

theorem encode_combination_delayed:
  assumes ps: "length PShift \<le> sFilterDelay * 2"
    and sz: "array_sizes enc"
    and lo: "length LeftOut = BufferLineSize" and ro: "length RightOut = BufferLineSize"
    and vb: "\<forall>b \<in> set blocks. valid_block b"
  shows "\<exists>enc' lefts rights.
      encode_stream lit PShift enc LeftOut RightOut blocks = Some (enc', lefts, rights)
    \<and> length lefts = length (stream_in 0 blocks) \<and> length rights = length (stream_in 0 blocks)
    \<and> (\<forall>g < length (stream_in 0 blocks).
          lefts ! g = (delayed_S lit enc blocks g + delayed_D lit PShift enc blocks g) * lit 0.5
        \<and> rights ! g = (delayed_S lit enc blocks g - delayed_D lit PShift enc blocks g) * lit 0.5)"
proof -
  have len: "length (stream_in 0 blocks) = length (S_stream lit blocks)"
    by (rule stream_in_length [OF vb]) simp
  from encode_stream_eq [OF ps sz lo ro vb, of lit]
  obtain enc' lefts rights where
    e: "encode_stream lit PShift enc LeftOut RightOut blocks = Some (enc', lefts, rights)"
    and l: "length lefts = length (S_stream lit blocks)" "length rights = length (S_stream lit blocks)"
    and o: "\<forall>g < length (S_stream lit blocks).
              (lefts ! g, rights ! g) = stream_out lit PShift enc blocks g"
    by blast
  have "lefts ! g = (delayed_S lit enc blocks g + delayed_D lit PShift enc blocks g) * lit 0.5
        \<and> rights ! g = (delayed_S lit enc blocks g - delayed_D lit PShift enc blocks g) * lit 0.5"
    if g: "g < length (S_stream lit blocks)" for g
  proof -
    have "(lefts ! g, rights ! g) = stream_out lit PShift enc blocks g"
      using o g by blast
    then show ?thesis
      unfolding stream_out_def Let_def delayed_S_eq [OF vb sz g] delayed_D_eq [OF ps vb sz g]
      by (simp only: prod.inject)
  qed
  with e l show ?thesis unfolding len by blast
qed

theorem encode_combination_delayed_witness:
  "\<exists>enc' lefts rights.
      encode_stream (\<lambda>x. x) example_taps UhjEncoder_init (replicate BufferLineSize 0)
        (replicate BufferLineSize 0) impulse_blocks = Some (enc', lefts, rights)
    \<and> length lefts = sFilterDelay * 2 + 1
    \<and> delayed_S (\<lambda>x. x) UhjEncoder_init impulse_blocks (sFilterDelay * 2) = 0.9396926
    \<and> lefts ! (sFilterDelay * 2)
        = (delayed_S (\<lambda>x. x) UhjEncoder_init impulse_blocks (sFilterDelay * 2)
           + delayed_D (\<lambda>x. x) example_taps UhjEncoder_init impulse_blocks (sFilterDelay * 2)) * 0.5
    \<and> rights ! (sFilterDelay * 2)
        = (delayed_S (\<lambda>x. x) UhjEncoder_init impulse_blocks (sFilterDelay * 2)
           - delayed_D (\<lambda>x. x) example_taps UhjEncoder_init impulse_blocks (sFilterDelay * 2)) * 0.5"
proof -
  have p: "length example_taps \<le> sFilterDelay * 2" by (simp add: example_taps_length)
  have l: "length (replicate BufferLineSize (0::real)) = BufferLineSize" by simp
  have n: "length (stream_in 0 impulse_blocks) = sFilterDelay * 2 + 1"
    unfolding impulse_blocks_streams(1) by simp
  have w: "stream_in 0 impulse_blocks ! sFilterDelay = 1"
    unfolding impulse_blocks_streams(1) by (simp add: nth_append)
  have x: "stream_in 1 impulse_blocks ! sFilterDelay = 0"
    unfolding impulse_blocks_streams(2) by (simp add: sFilterDelay_def)
  have s: "delayed_S (\<lambda>x. x) UhjEncoder_init impulse_blocks (sFilterDelay * 2) = 0.9396926"
    using w x by (simp add: delayed_S_def sFilterDelay_def)
  from encode_combination_delayed [OF p init_sizes l l impulse_blocks_valid, of "\<lambda>x. x"]
  obtain enc' lefts rights where
    e: "encode_stream (\<lambda>x. x) example_taps UhjEncoder_init (replicate BufferLineSize 0)
        (replicate BufferLineSize 0) impulse_blocks = Some (enc', lefts, rights)"
    and ll: "length lefts = length (stream_in 0 impulse_blocks)"
    and o: "\<forall>g < length (stream_in 0 impulse_blocks).
          lefts ! g = (delayed_S (\<lambda>x. x) UhjEncoder_init impulse_blocks g
                       + delayed_D (\<lambda>x. x) example_taps UhjEncoder_init impulse_blocks g) * 0.5
        \<and> rights ! g = (delayed_S (\<lambda>x. x) UhjEncoder_init impulse_blocks g
                       - delayed_D (\<lambda>x. x) example_taps UhjEncoder_init impulse_blocks g) * 0.5"
    by blast
  have "sFilterDelay * 2 < length (stream_in 0 impulse_blocks)" unfolding n by simp
  with o have "lefts ! (sFilterDelay * 2)
        = (delayed_S (\<lambda>x. x) UhjEncoder_init impulse_blocks (sFilterDelay * 2)
           + delayed_D (\<lambda>x. x) example_taps UhjEncoder_init impulse_blocks (sFilterDelay * 2)) * 0.5"
    "rights ! (sFilterDelay * 2)
        = (delayed_S (\<lambda>x. x) UhjEncoder_init impulse_blocks (sFilterDelay * 2)
           - delayed_D (\<lambda>x. x) example_taps UhjEncoder_init impulse_blocks (sFilterDelay * 2)) * 0.5"
    by blast+
  moreover have "length lefts = sFilterDelay * 2 + 1"
    using ll n by (rule trans)
  ultimately show ?thesis using e s by blast
qed

subsection \<open>UHJ encoder: impulse response\<close>

text \<open>
  Over the real numbers, a fresh encoder is fed a stream of \<open>sFilterDelay\<close> zero samples on all
  channels, then one sample with a unit impulse on W only, then \<open>sFilterDelay\<close> more zero
  samples, cut into blocks of at most \<open>BufferLineSize\<close> frames in any way. The output sample
  that corresponds to the impulse, \<open>sFilterDelay\<close> samples after its position in the input, is
  \<open>Left = (0.9396926 + t) / 2\<close> and \<open>Right = (0.9396926 - t) / 2\<close>, where \<open>t\<close> is what the filter
  adds there: the filter sees the impulse under its tap \<open>sFilterDelay - 1\<close>, so \<open>t\<close> is
  \<open>-0.3420201\<close> times this tap of the coefficient table.
\<close>

lemma impulse_response:
  assumes ps: "length PShift \<le> sFilterDelay * 2"
    and lo: "length LeftOut = BufferLineSize" and ro: "length RightOut = BufferLineSize"
    and vb: "\<forall>b \<in> set blocks. valid_block b"
    and w: "stream_in 0 blocks = replicate sFilterDelay 0 @ [1] @ replicate sFilterDelay 0"
    and x: "stream_in 1 blocks = replicate (sFilterDelay * 2 + 1) 0"
    and y: "stream_in 2 blocks = replicate (sFilterDelay * 2 + 1) 0"
  shows "\<exists>enc' lefts rights.
      encode_stream (\<lambda>x. x) PShift UhjEncoder_init LeftOut RightOut blocks = Some (enc', lefts, rights)
    \<and> length lefts = sFilterDelay * 2 + 1 \<and> length rights = sFilterDelay * 2 + 1
    \<and> lefts ! (sFilterDelay * 2)
        = (0.9396926 + (if sFilterDelay - 1 < length PShift
                        then - 0.3420201 * PShift ! (sFilterDelay - 1) else 0)) / 2
    \<and> rights ! (sFilterDelay * 2)
        = (0.9396926 - (if sFilterDelay - 1 < length PShift
                        then - 0.3420201 * PShift ! (sFilterDelay - 1) else 0)) / 2"
proof -
  let ?id = "\<lambda>x::real. x"
  have len: "length (S_stream ?id blocks) = sFilterDelay * 2 + 1"
    using stream_in_length [OF vb, of 1 ?id] x by simp
  from encode_stream_eq [OF ps init_sizes lo ro vb, of ?id]
  obtain enc' lefts rights where
    e: "encode_stream ?id PShift UhjEncoder_init LeftOut RightOut blocks = Some (enc', lefts, rights)"
    and l: "length lefts = length (S_stream ?id blocks)" "length rights = length (S_stream ?id blocks)"
    and o: "\<forall>g < length (S_stream ?id blocks).
              (lefts ! g, rights ! g) = stream_out ?id PShift UhjEncoder_init blocks g"
    by blast
  have "(lefts ! (sFilterDelay * 2), rights ! (sFilterDelay * 2))
        = stream_out ?id PShift UhjEncoder_init blocks (sFilterDelay * 2)"
    using o len by simp
  then have "lefts ! (sFilterDelay * 2)
        = (0.9396926 + (if sFilterDelay - 1 < length PShift
                        then - 0.3420201 * PShift ! (sFilterDelay - 1) else 0)) / 2"
    "rights ! (sFilterDelay * 2)
        = (0.9396926 - (if sFilterDelay - 1 < length PShift
                        then - 0.3420201 * PShift ! (sFilterDelay - 1) else 0)) / 2"
    unfolding impulse_stream_out [OF ps vb w x y] by (simp_all only: prod.inject)
  with e l len show ?thesis by simp
qed

end
